theory Spec2Isabelle
  imports Main "HOL-Library.Word"
begin

unbundle bit_operations_syntax

chapter \<open>Definitions\<close>

section \<open>Buffers, errors and JavaScript values\<close>

text \<open>
  A Node \<open>Buffer\<close> is a list of bytes. A thrown exception is a value of type \<open>error\<close>;
  \<open>assert(c)\<close> without a message throws \<open>AssertionError ''''\<close>, \<open>assert(c, msg)\<close> throws
  \<open>AssertionError msg\<close>, \<open>throw new Error(msg)\<close> is \<open>Error msg\<close>.
\<close>

type_synonym byte = "8 word"
type_synonym buffer = "byte list"

datatype error = AssertionError string | RangeError string | TypeError string | Error string

text \<open>
  An optional argument of a call, as far as the code inspects it: omitted, a boolean or a
  number. \<open>truthy\<close> is JavaScript's conversion to a boolean.
\<close>

datatype jsval = Undefined | Boolean bool | Number int

fun truthy :: "jsval \<Rightarrow> bool" where
  "truthy Undefined = False"
| "truthy (Boolean b) = b"
| "truthy (Number n) = (n \<noteq> 0)"

text \<open>\<open>buf.slice(s, e)\<close> for \<open>0 \<le> s\<close>, \<open>0 \<le> e\<close>: both ends are clamped to the buffer.\<close>

definition buf_slice :: "buffer \<Rightarrow> nat \<Rightarrow> nat \<Rightarrow> buffer" where
  "buf_slice b s e = take (e - s) (drop s b)"

text \<open>Little-endian and big-endian values of a run of bytes.\<close>

fun le_val :: "buffer \<Rightarrow> nat" where
  "le_val [] = 0"
| "le_val (b # bs) = unat b + 256 * le_val bs"

definition be_val :: "buffer \<Rightarrow> nat" where
  "be_val bs = le_val (rev bs)"

text \<open>
  \<open>buf.readUInt32LE(off, true)\<close> and \<open>buf.readUInt32BE(off, true)\<close>. The code calls them
  with four bytes available; on a shorter buffer the model takes the bytes that are there.
\<close>

definition readUInt32LE :: "buffer \<Rightarrow> nat \<Rightarrow> nat" where
  "readUInt32LE b off = le_val (take 4 (drop off b))"

definition readUInt32BE :: "buffer \<Rightarrow> nat \<Rightarrow> nat" where
  "readUInt32BE b off = be_val (take 4 (drop off b))"

text \<open>The \<open>n\<close> low bytes of a number, least significant first, and most significant first.\<close>

fun le_bytes :: "nat \<Rightarrow> int \<Rightarrow> buffer" where
  "le_bytes 0 v = []"
| "le_bytes (Suc n) v = word_of_int v # le_bytes n (v div 256)"

definition be_bytes :: "nat \<Rightarrow> int \<Rightarrow> buffer" where
  "be_bytes n v = rev (le_bytes n v)"

section \<open>BufferReader (utils/reader.js)\<close>

text \<open>
  The reader object. Every method takes the reader and returns the value or the thrown
  error together with the reader as the call leaves it, so that what a failed read has
  consumed stays visible.
\<close>

record BufferReader =
  data :: buffer
  offset :: nat
  zeroCopy :: bool
  stack :: "nat list"

type_synonym 'a rd = "BufferReader \<Rightarrow> (error + 'a) \<times> BufferReader"

definition newBufferReader :: "buffer \<Rightarrow> BufferReader" where
  "newBufferReader d = \<lparr>data = d, offset = 0, zeroCopy = False, stack = []\<rparr>"

text \<open>Sequencing of two reads: the second runs only if the first did not throw.\<close>

definition rd_bind :: "'a rd \<Rightarrow> ('a \<Rightarrow> 'b rd) \<Rightarrow> 'b rd" where
  "rd_bind m f r = (case m r of (Inl e, r') \<Rightarrow> (Inl e, r') | (Inr a, r') \<Rightarrow> f a r')"

definition rd_return :: "'a \<Rightarrow> 'a rd" where
  "rd_return a r = (Inr a, r)"

definition left :: "nat rd" where
  "left r = (if offset r \<le> length (data r) then (Inr (length (data r) - offset r), r)
             else (Inl (AssertionError ''''), r))"

definition start :: "nat rd" where
  "start r = (Inr (offset r), r\<lparr>stack := stack r @ [offset r]\<rparr>)"

definition readU8 :: "nat rd" where
  "readU8 r =
     (if offset r + 1 \<le> length (data r)
      then (Inr (unat (data r ! offset r)), r\<lparr>offset := offset r + 1\<rparr>)
      else (Inl (AssertionError ''''), r))"

definition readU32 :: "nat rd" where
  "readU32 r =
     (if offset r + 4 \<le> length (data r)
      then (Inr (readUInt32LE (data r) (offset r)), r\<lparr>offset := offset r + 4\<rparr>)
      else (Inl (AssertionError ''''), r))"

definition readU32BE :: "nat rd" where
  "readU32BE r =
     (if offset r + 4 \<le> length (data r)
      then (Inr (readUInt32BE (data r) (offset r)), r\<lparr>offset := offset r + 4\<rparr>)
      else (Inl (AssertionError ''''), r))"

text \<open>
  \<open>encoding.readVarint(data, off)\<close> belongs to utils/encoding.js, which is not among the
  sources: it is the parameter \<open>rv\<close>, returning the thrown error or the pair of the
  encoded size and the decoded value.
\<close>

type_synonym varint_reader = "buffer \<Rightarrow> nat \<Rightarrow> error + (nat \<times> nat)"

definition readVarint :: "varint_reader \<Rightarrow> nat rd" where
  "readVarint rv r =
     (case rv (data r) (offset r) of
        Inl e \<Rightarrow> (Inl e, r)
      | Inr (sz, v) \<Rightarrow> (Inr v, r\<lparr>offset := offset r + sz\<rparr>))"

text \<open>
  \<open>readBytes(size, zeroCopy)\<close>. Sizes are natural numbers, so \<open>assert(size >= 0)\<close> holds.
  The zero-copy slice and the copy hold the same bytes; the bound is asserted before the
  buffer for the copy is allocated.
\<close>

definition readBytes :: "nat \<Rightarrow> jsval \<Rightarrow> buffer rd" where
  "readBytes n zc r =
     (if offset r + n \<le> length (data r)
      then (Inr (if zeroCopy r \<or> truthy zc
                 then buf_slice (data r) (offset r) (offset r + n)
                 else take n (drop (offset r) (data r))),
            r\<lparr>offset := offset r + n\<rparr>)
      else (Inl (AssertionError ''''), r))"

definition readVarBytes :: "varint_reader \<Rightarrow> jsval \<Rightarrow> buffer rd" where
  "readVarBytes rv zc = rd_bind (readVarint rv) (\<lambda>n. readBytes n zc)"

text \<open>
  \<open>data.toString(enc, start, end)\<close> is Node's decoder, the parameter \<open>dec\<close>; an encoding
  is named by its string.
\<close>

type_synonym decoder = "string \<Rightarrow> buffer \<Rightarrow> string"

definition readString :: "decoder \<Rightarrow> string \<Rightarrow> nat \<Rightarrow> string rd" where
  "readString dec enc n r =
     (if offset r + n \<le> length (data r)
      then (Inr (dec enc (buf_slice (data r) (offset r) (offset r + n))),
            r\<lparr>offset := offset r + n\<rparr>)
      else (Inl (AssertionError ''''), r))"

text \<open>
  \<open>readVarString(enc, limit)\<close>: \<open>limit\<close> is \<open>None\<close> when the caller omits it. \<open>!limit\<close>
  holds for an omitted limit and for 0.
\<close>

definition readVarString :: "varint_reader \<Rightarrow> decoder \<Rightarrow> string \<Rightarrow> int option \<Rightarrow> string rd" where
  "readVarString rv dec enc limit =
     rd_bind (readVarint rv) (\<lambda>n r.
       if limit = None \<or> limit = Some 0 \<or> int n \<le> the limit
       then readString dec enc n r
       else (Inl (AssertionError ''String exceeds limit.''), r))"

text \<open>
  \<open>createChecksum\<close>: \<open>this.stack[this.stack.length - 1] || 0\<close> is the last mark, and 0
  when the stack is empty (or the mark is 0). \<open>crypto.hash256\<close> belongs to
  crypto/crypto.js, not among the sources: it is the parameter \<open>h256\<close>.
\<close>

definition createChecksum :: "(buffer \<Rightarrow> buffer) \<Rightarrow> BufferReader \<Rightarrow> nat" where
  "createChecksum h256 r =
     (let st = (if stack r = [] then 0 else last (stack r));
          d = buf_slice (data r) st (offset r)
      in readUInt32LE (h256 d) 0)"

definition verifyChecksum :: "(buffer \<Rightarrow> buffer) \<Rightarrow> nat rd" where
  "verifyChecksum h256 r =
     (let chk = createChecksum h256 r
      in rd_bind readU32 (\<lambda>checksum r'.
           if chk = checksum then (Inr checksum, r')
           else (Inl (AssertionError ''Checksum mismatch.''), r')) r)"

text \<open>
  Modelled from the spec: \<open>encoding.readVarint\<close> of utils/encoding.js, which is not among
  the sources, as Bitcoin's variable-length integer (the length prefixes of the wire
  formats): one byte below 0xfd, or a marker 0xfd, 0xfe, 0xff followed by 2, 4, 8
  little-endian bytes. It only instantiates the parameter \<open>rv\<close> in examples.
\<close>

definition std_readVarint :: varint_reader where
  "std_readVarint d off =
     (if length d \<le> off then Inl (AssertionError [])
      else if d ! off = 0xff then
        (if off + 9 \<le> length d then Inr (9, le_val (take 8 (drop (off + 1) d)))
         else Inl (AssertionError []))
      else if d ! off = 0xfe then
        (if off + 5 \<le> length d then Inr (5, le_val (take 4 (drop (off + 1) d)))
         else Inl (AssertionError []))
      else if d ! off = 0xfd then
        (if off + 3 \<le> length d then Inr (3, le_val (take 2 (drop (off + 1) d)))
         else Inl (AssertionError []))
      else Inr (1, unat (d ! off)))"

text \<open>An example decoder for the single-byte encodings: every byte is one character.\<close>

definition latin1_decode :: decoder where
  "latin1_decode enc b = map (\<lambda>x. char_of (unat x)) b"

text \<open>
  Writing bytes at an offset of a buffer of fixed length, as \<open>src.copy(target, off)\<close> and
  the \<open>noAssert\<close> integer writes do for \<open>0 \<le> off\<close>: what falls outside the target is
  dropped, the length of the target never changes.
\<close>

definition buf_put :: "buffer \<Rightarrow> int \<Rightarrow> buffer \<Rightarrow> buffer" where
  "buf_put d off bs =
     map (\<lambda>i. if off \<le> int i \<and> int i < off + int (length bs) then bs ! nat (int i - off) else d ! i)
       [0..<length d]"

section \<open>BufferWriter (utils/writer.js)\<close>

text \<open>
  The fixed-width operations, named by the constants of the source. A number written as
  a float or a double is given by its IEEE bit pattern.
\<close>

datatype fixed_type =
    UI8 | UI16 | UI16BE | UI32 | UI32BE | UI64 | UI64BE
  | I8 | I16 | I16BE | I32 | I32BE | I64 | I64BE
  | FL | FLBE | DBL | DBLBE

fun fixed_width :: "fixed_type \<Rightarrow> nat" where
  "fixed_width UI8 = 1" | "fixed_width UI16 = 2" | "fixed_width UI16BE = 2" | "fixed_width UI32 = 4"
| "fixed_width UI32BE = 4" | "fixed_width UI64 = 8" | "fixed_width UI64BE = 8"
| "fixed_width I8 = 1" | "fixed_width I16 = 2" | "fixed_width I16BE = 2" | "fixed_width I32 = 4"
| "fixed_width I32BE = 4" | "fixed_width I64 = 8" | "fixed_width I64BE = 8"
| "fixed_width FL = 4" | "fixed_width FLBE = 4" | "fixed_width DBL = 8" | "fixed_width DBLBE = 8"

fun big_endian :: "fixed_type \<Rightarrow> bool" where
  "big_endian UI16BE = True" | "big_endian UI32BE = True" | "big_endian UI64BE = True"
| "big_endian I16BE = True" | "big_endian I32BE = True" | "big_endian I64BE = True"
| "big_endian FLBE = True" | "big_endian DBLBE = True"
| "big_endian t = False"

text \<open>
  A queued \<open>WriteOp\<close>: its type with the fields that type uses (\<open>OP_STR\<close>, the \<open>STR\<close> of the source, carries the string
  and the encoding, \<open>FILL\<close> the value and the size).
\<close>

datatype WriteOp =
    SEEK int | FIXED fixed_type int | VARINT int | VARINT2 int | BYTES buffer
  | OP_STR string string | CHECKSUM | FILL int int

record BufferWriter =
  ops :: "WriteOp list"
  written :: int

definition newBufferWriter :: BufferWriter where
  "newBufferWriter = \<lparr>ops = [], written = 0\<rparr>"

text \<open>
  What the writer takes from outside the sources: \<open>encoding.sizeVarint\<close>,
  \<open>encoding.writeVarint(data, value, off)\<close> (the buffer as written and the new offset) and
  their type-2 variants, Node's \<open>Buffer.byteLength(value, enc)\<close> and
  \<open>data.write(value, off, enc)\<close> (the buffer as written and the number of bytes written),
  and \<open>crypto.hash256\<close>.
\<close>

record writer_env =
  sizeVarint :: "int \<Rightarrow> int"
  writeVarint_ext :: "buffer \<Rightarrow> int \<Rightarrow> int \<Rightarrow> buffer \<times> int"
  sizeVarint2 :: "int \<Rightarrow> int"
  writeVarint2_ext :: "buffer \<Rightarrow> int \<Rightarrow> int \<Rightarrow> buffer \<times> int"
  byteLength :: "string \<Rightarrow> string \<Rightarrow> int"
  buffer_write :: "buffer \<Rightarrow> string \<Rightarrow> int \<Rightarrow> string \<Rightarrow> buffer \<times> int"
  writer_hash256 :: "buffer \<Rightarrow> buffer"

text \<open>A string or a buffer, for the methods that take either.\<close>

datatype str_or_buf = String string | Buffer buffer

text \<open>The methods that queue: each adds to \<open>written\<close> and pushes its operations.\<close>

definition push_op :: "WriteOp \<Rightarrow> BufferWriter \<Rightarrow> BufferWriter" where
  "push_op op w = w\<lparr>ops := ops w @ [op]\<rparr>"

definition add_written :: "int \<Rightarrow> BufferWriter \<Rightarrow> BufferWriter" where
  "add_written n w = w\<lparr>written := written w + n\<rparr>"

definition seek :: "int \<Rightarrow> BufferWriter \<Rightarrow> BufferWriter" where
  "seek off w = push_op (SEEK off) (add_written off w)"

definition writeFixed :: "fixed_type \<Rightarrow> int \<Rightarrow> BufferWriter \<Rightarrow> BufferWriter" where
  "writeFixed t v w = push_op (FIXED t v) (add_written (int (fixed_width t)) w)"

definition writeU8 :: "int \<Rightarrow> BufferWriter \<Rightarrow> BufferWriter" where "writeU8 = writeFixed UI8"
definition writeU16 :: "int \<Rightarrow> BufferWriter \<Rightarrow> BufferWriter" where "writeU16 = writeFixed UI16"
definition writeU16BE :: "int \<Rightarrow> BufferWriter \<Rightarrow> BufferWriter" where "writeU16BE = writeFixed UI16BE"
definition writeU32 :: "int \<Rightarrow> BufferWriter \<Rightarrow> BufferWriter" where "writeU32 = writeFixed UI32"
definition writeU32BE :: "int \<Rightarrow> BufferWriter \<Rightarrow> BufferWriter" where "writeU32BE = writeFixed UI32BE"
definition writeU64 :: "int \<Rightarrow> BufferWriter \<Rightarrow> BufferWriter" where "writeU64 = writeFixed UI64"
definition writeU64BE :: "int \<Rightarrow> BufferWriter \<Rightarrow> BufferWriter" where "writeU64BE = writeFixed UI64BE"
definition write8 :: "int \<Rightarrow> BufferWriter \<Rightarrow> BufferWriter" where "write8 = writeFixed I8"
definition write16 :: "int \<Rightarrow> BufferWriter \<Rightarrow> BufferWriter" where "write16 = writeFixed I16"
definition write16BE :: "int \<Rightarrow> BufferWriter \<Rightarrow> BufferWriter" where "write16BE = writeFixed I16BE"
definition write32 :: "int \<Rightarrow> BufferWriter \<Rightarrow> BufferWriter" where "write32 = writeFixed I32"
definition write32BE :: "int \<Rightarrow> BufferWriter \<Rightarrow> BufferWriter" where "write32BE = writeFixed I32BE"
definition write64 :: "int \<Rightarrow> BufferWriter \<Rightarrow> BufferWriter" where "write64 = writeFixed I64"
definition write64BE :: "int \<Rightarrow> BufferWriter \<Rightarrow> BufferWriter" where "write64BE = writeFixed I64BE"
definition writeFloat :: "int \<Rightarrow> BufferWriter \<Rightarrow> BufferWriter" where "writeFloat = writeFixed FL"
definition writeFloatBE :: "int \<Rightarrow> BufferWriter \<Rightarrow> BufferWriter" where "writeFloatBE = writeFixed FLBE"
definition writeDouble :: "int \<Rightarrow> BufferWriter \<Rightarrow> BufferWriter" where "writeDouble = writeFixed DBL"
definition writeDoubleBE :: "int \<Rightarrow> BufferWriter \<Rightarrow> BufferWriter" where "writeDoubleBE = writeFixed DBLBE"

definition writeVarint :: "writer_env \<Rightarrow> int \<Rightarrow> BufferWriter \<Rightarrow> error + BufferWriter" where
  "writeVarint env v w =
     (if \<not> 0 \<le> v then Inl (AssertionError [])
      else Inr (push_op (VARINT v) (add_written (sizeVarint env v) w)))"

definition writeVarint2 :: "writer_env \<Rightarrow> int \<Rightarrow> BufferWriter \<Rightarrow> error + BufferWriter" where
  "writeVarint2 env v w =
     (if \<not> 0 \<le> v then Inl (AssertionError [])
      else Inr (push_op (VARINT2 v) (add_written (sizeVarint2 env v) w)))"

definition writeBytes :: "buffer \<Rightarrow> BufferWriter \<Rightarrow> BufferWriter" where
  "writeBytes v w =
     (if length v = 0 then w else push_op (BYTES v) (add_written (int (length v)) w))"

definition writeVarBytes :: "writer_env \<Rightarrow> buffer \<Rightarrow> BufferWriter \<Rightarrow> BufferWriter" where
  "writeVarBytes env v w =
     (let w1 = push_op (VARINT (int (length v))) (add_written (sizeVarint env (int (length v))) w)
      in if length v = 0 then w1 else push_op (BYTES v) (add_written (int (length v)) w1))"

definition writeString :: "writer_env \<Rightarrow> str_or_buf \<Rightarrow> string \<Rightarrow> BufferWriter \<Rightarrow> BufferWriter" where
  "writeString env v enc w =
     (case v of
        Buffer b \<Rightarrow> writeBytes b w
      | String s \<Rightarrow>
          (let w1 = add_written (byteLength env s enc) w
           in if length s = 0 then w1 else push_op (OP_STR s enc) w1))"

definition writeHash :: "writer_env \<Rightarrow> str_or_buf \<Rightarrow> BufferWriter \<Rightarrow> BufferWriter" where
  "writeHash env v w = writeString env v ''hex'' w"

definition writeVarString :: "writer_env \<Rightarrow> str_or_buf \<Rightarrow> string \<Rightarrow> BufferWriter \<Rightarrow> BufferWriter" where
  "writeVarString env v enc w =
     (case v of
        Buffer b \<Rightarrow> writeVarBytes env b w
      | String s \<Rightarrow>
          (let n = byteLength env s enc;
               w1 = add_written n (add_written (sizeVarint env n) w);
               w2 = push_op (VARINT n) w1
           in if length s = 0 then w2 else push_op (OP_STR s enc) w2))"

definition writeNullString :: "writer_env \<Rightarrow> str_or_buf \<Rightarrow> string \<Rightarrow> BufferWriter \<Rightarrow> BufferWriter" where
  "writeNullString env v enc w = writeU8 0 (writeString env v enc w)"

definition writeChecksum :: "BufferWriter \<Rightarrow> BufferWriter" where
  "writeChecksum w = push_op CHECKSUM (add_written 4 w)"

definition fill :: "int \<Rightarrow> int \<Rightarrow> BufferWriter \<Rightarrow> error + BufferWriter" where
  "fill v n w =
     (if \<not> 0 \<le> n then Inl (AssertionError [])
      else if n = 0 then Inr w
      else Inr (push_op (FILL v n) (add_written n w)))"

text \<open>A call of a method, and a sequence of calls on a writer; a throw ends the sequence.\<close>

datatype call =
    Call_seek int | Call_writeFixed fixed_type int | Call_writeVarint int
  | Call_writeVarint2 int | Call_writeBytes buffer | Call_writeVarBytes buffer
  | Call_writeString str_or_buf string | Call_writeHash str_or_buf
  | Call_writeVarString str_or_buf string | Call_writeNullString str_or_buf string
  | Call_writeChecksum | Call_fill int int

fun apply_call :: "writer_env \<Rightarrow> call \<Rightarrow> BufferWriter \<Rightarrow> error + BufferWriter" where
  "apply_call env (Call_seek off) w = Inr (seek off w)"
| "apply_call env (Call_writeFixed t v) w = Inr (writeFixed t v w)"
| "apply_call env (Call_writeVarint v) w = writeVarint env v w"
| "apply_call env (Call_writeVarint2 v) w = writeVarint2 env v w"
| "apply_call env (Call_writeBytes b) w = Inr (writeBytes b w)"
| "apply_call env (Call_writeVarBytes b) w = Inr (writeVarBytes env b w)"
| "apply_call env (Call_writeString v enc) w = Inr (writeString env v enc w)"
| "apply_call env (Call_writeHash v) w = Inr (writeHash env v w)"
| "apply_call env (Call_writeVarString v enc) w = Inr (writeVarString env v enc w)"
| "apply_call env (Call_writeNullString v enc) w = Inr (writeNullString env v enc w)"
| "apply_call env Call_writeChecksum w = Inr (writeChecksum w)"
| "apply_call env (Call_fill v n) w = fill v n w"

fun run_calls :: "writer_env \<Rightarrow> call list \<Rightarrow> BufferWriter \<Rightarrow> error + BufferWriter" where
  "run_calls env [] w = Inr w"
| "run_calls env (c # cs) w =
     (case apply_call env c w of Inl e \<Rightarrow> Inl e | Inr w' \<Rightarrow> run_calls env cs w')"

text \<open>
  \<open>render\<close>. One step of the loop takes the buffer and the offset to the new ones.
  The integer and float writes of Node run with \<open>noAssert\<close>: the offset is taken
  \<open>>>> 0\<close> (modulo \<open>2^32\<close>), bytes outside the buffer are dropped, and the result is that
  offset plus the width; the 64-bit writes of utils/encoding.js, not among the sources,
  are taken to do the same. \<open>copy\<close> returns the number of bytes that fit, and throws a
  RangeError for a negative target offset, as \<open>fill\<close> does for a range outside the
  buffer; \<open>data.slice(0, off)\<close> counts a negative \<open>off\<close> from the end.
\<close>

definition copied :: "buffer \<Rightarrow> buffer \<Rightarrow> int \<Rightarrow> int" where
  "copied src d off =
     (if int (length d) \<le> off then 0 else min (int (length src)) (int (length d) - off))"

definition slice_to :: "buffer \<Rightarrow> int \<Rightarrow> buffer" where
  "slice_to d off = (if off < 0 then take (nat (int (length d) + off)) d else take (nat off) d)"

fun render_op :: "writer_env \<Rightarrow> WriteOp \<Rightarrow> buffer \<times> int \<Rightarrow> error + (buffer \<times> int)" where
  "render_op env (SEEK v) (d, off) = Inr (d, off + v)"
| "render_op env (FIXED t v) (d, off) =
     (let pos = off mod 0x100000000
      in Inr (buf_put d pos (if big_endian t then be_bytes (fixed_width t) v
                             else le_bytes (fixed_width t) v),
              pos + int (fixed_width t)))"
| "render_op env (VARINT v) (d, off) = Inr (writeVarint_ext env d v off)"
| "render_op env (VARINT2 v) (d, off) = Inr (writeVarint2_ext env d v off)"
| "render_op env (BYTES b) (d, off) =
     (if off < 0 then Inl (RangeError ''targetStart'')
      else Inr (buf_put d off b, off + copied b d off))"
| "render_op env (OP_STR s enc) (d, off) =
     (case buffer_write env d s off enc of (d', n) \<Rightarrow> Inr (d', off + n))"
| "render_op env CHECKSUM (d, off) =
     (let h = take 4 (writer_hash256 env (slice_to d off))
      in if off < 0 then Inl (RangeError ''targetStart'')
         else Inr (buf_put d off h, off + copied h d off))"
| "render_op env (FILL v n) (d, off) =
     (if off < 0 \<or> int (length d) < off + n then Inl (RangeError ''fill'')
      else Inr (buf_put d off (replicate (nat n) (word_of_int v)), off + n))"

fun replay :: "writer_env \<Rightarrow> WriteOp list \<Rightarrow> buffer \<times> int \<Rightarrow> error + (buffer \<times> int)" where
  "replay env [] st = Inr st"
| "replay env (op # os) st =
     (case render_op env op st of Inl e \<Rightarrow> Inl e | Inr st' \<Rightarrow> replay env os st')"

text \<open>
  \<open>buffer.kMaxLength\<close> of Node, the largest size of a buffer (64-bit builds of the
  Node 6 line, for which the code was written).
\<close>

definition kMaxLength :: int where
  "kMaxLength = 0x7fffffff"

text \<open>
  \<open>render(keep)\<close> returns the buffer. \<open>new Buffer(n)\<close> throws a RangeError for a size
  above \<open>kMaxLength\<close>, gives the empty buffer for a size that is not positive, and is
  otherwise uninitialised memory, modelled as zeros. The last step is
  \<open>assert(off === data.length)\<close>. What \<open>destroy\<close> does to the writer afterwards is left
  out.
\<close>

definition render :: "writer_env \<Rightarrow> BufferWriter \<Rightarrow> error + buffer" where
  "render env w =
     (if kMaxLength < written w then Inl (RangeError ''size'')
      else
        (case replay env (ops w) (replicate (nat (written w)) 0, 0) of
           Inl e \<Rightarrow> Inl e
         | Inr (d, off) \<Rightarrow> if off = int (length d) then Inr d else Inl (AssertionError [])))"

text \<open>
  The size that an operation accounts for in \<open>written\<close>.
\<close>

fun op_size :: "writer_env \<Rightarrow> WriteOp \<Rightarrow> int" where
  "op_size env (SEEK v) = v"
| "op_size env (FIXED t v) = int (fixed_width t)"
| "op_size env (VARINT v) = sizeVarint env v"
| "op_size env (VARINT2 v) = sizeVarint2 env v"
| "op_size env (BYTES b) = int (length b)"
| "op_size env (OP_STR s enc) = byteLength env s enc"
| "op_size env CHECKSUM = 4"
| "op_size env (FILL v n) = n"

text \<open>
  What the theorems ask of the outside functions, value by value. For a varint \<open>v\<close>:
  \<open>encoding.sizeVarint(v)\<close> is a number of bytes, and \<open>encoding.writeVarint(data, v, off)\<close>
  advances by it and keeps the length of the buffer when the bytes fit. For a string:
  \<open>Buffer.byteLength(s, enc)\<close> is a number of bytes, none for the empty string, and
  \<open>data.write(s, off, enc)\<close> writes that many when they fit. For the checksum: a hash has
  at least four bytes.
\<close>

definition varint_ok :: "writer_env \<Rightarrow> int \<Rightarrow> bool" where
  "varint_ok env v \<longleftrightarrow>
     0 \<le> sizeVarint env v
   \<and> (\<forall>d off. 0 \<le> off \<and> off + sizeVarint env v \<le> int (length d) \<longrightarrow>
         length (fst (writeVarint_ext env d v off)) = length d
       \<and> snd (writeVarint_ext env d v off) = off + sizeVarint env v)"

definition varint2_ok :: "writer_env \<Rightarrow> int \<Rightarrow> bool" where
  "varint2_ok env v \<longleftrightarrow>
     0 \<le> sizeVarint2 env v
   \<and> (\<forall>d off. 0 \<le> off \<and> off + sizeVarint2 env v \<le> int (length d) \<longrightarrow>
         length (fst (writeVarint2_ext env d v off)) = length d
       \<and> snd (writeVarint2_ext env d v off) = off + sizeVarint2 env v)"

definition string_ok :: "writer_env \<Rightarrow> string \<Rightarrow> string \<Rightarrow> bool" where
  "string_ok env s enc \<longleftrightarrow>
     0 \<le> byteLength env s enc
   \<and> (s = [] \<longrightarrow> byteLength env s enc = 0)
   \<and> (\<forall>d off. 0 \<le> off \<and> off + byteLength env s enc \<le> int (length d) \<longrightarrow>
         length (fst (buffer_write env d s off enc)) = length d
       \<and> snd (buffer_write env d s off enc) = byteLength env s enc)"

definition hash_ok :: "writer_env \<Rightarrow> bool" where
  "hash_ok env \<longleftrightarrow> (\<forall>d. 4 \<le> length (writer_hash256 env d))"

fun op_ok :: "writer_env \<Rightarrow> WriteOp \<Rightarrow> bool" where
  "op_ok env (VARINT v) = varint_ok env v"
| "op_ok env (VARINT2 v) = varint2_ok env v"
| "op_ok env (OP_STR s enc) = string_ok env s enc"
| "op_ok env CHECKSUM = hash_ok env"
| "op_ok env (SEEK v) = True"
| "op_ok env (FIXED t v) = True"
| "op_ok env (BYTES b) = True"
| "op_ok env (FILL v n) = True"

fun value_ok :: "writer_env \<Rightarrow> str_or_buf \<Rightarrow> string \<Rightarrow> bool" where
  "value_ok env (String s) enc = string_ok env s enc"
| "value_ok env (Buffer b) enc = True"

fun value_length :: "writer_env \<Rightarrow> str_or_buf \<Rightarrow> string \<Rightarrow> int" where
  "value_length env (String s) enc = byteLength env s enc"
| "value_length env (Buffer b) enc = int (length b)"

fun call_ok :: "writer_env \<Rightarrow> call \<Rightarrow> bool" where
  "call_ok env (Call_seek off) = True"
| "call_ok env (Call_writeFixed t v) = True"
| "call_ok env (Call_writeVarint v) = varint_ok env v"
| "call_ok env (Call_writeVarint2 v) = varint2_ok env v"
| "call_ok env (Call_writeBytes b) = True"
| "call_ok env (Call_writeVarBytes b) = varint_ok env (int (length b))"
| "call_ok env (Call_writeString v enc) = value_ok env v enc"
| "call_ok env (Call_writeHash v) = value_ok env v ''hex''"
| "call_ok env (Call_writeVarString v enc) =
     (value_ok env v enc \<and> varint_ok env (value_length env v enc))"
| "call_ok env (Call_writeNullString v enc) = value_ok env v enc"
| "call_ok env Call_writeChecksum = hash_ok env"
| "call_ok env (Call_fill v n) = True"

text \<open>
  The queued operations \<open>os\<close>, replayed from the offset \<open>off\<close>, all write inside a buffer
  of \<open>n\<close> bytes: every operation other than a seek starts at an offset that is not
  negative and ends at \<open>n\<close> or before.
\<close>

fun is_seek :: "WriteOp \<Rightarrow> bool" where
  "is_seek (SEEK v) = True"
| "is_seek op = False"

fun inside :: "writer_env \<Rightarrow> WriteOp list \<Rightarrow> int \<Rightarrow> int \<Rightarrow> bool" where
  "inside env [] off n = True"
| "inside env (op # os) off n =
     ((is_seek op \<or> 0 \<le> off \<and> off + op_size env op \<le> n)
      \<and> inside env os (off + op_size env op) n)"

definition in_bounds :: "writer_env \<Rightarrow> BufferWriter \<Rightarrow> bool" where
  "in_bounds env w \<longleftrightarrow>
     0 \<le> written w \<and> written w \<le> kMaxLength \<and> inside env (ops w) 0 (written w)"

text \<open>
  A writer whose counter is the sum of the sizes of its queued operations, each of them
  written by outside functions that agree with their size functions.
\<close>

definition accounted :: "writer_env \<Rightarrow> BufferWriter \<Rightarrow> bool" where
  "accounted env w \<longleftrightarrow>
     written w = sum_list (map (op_size env) (ops w)) \<and> (\<forall>op\<in>set (ops w). op_ok env op)"

text \<open>
  Modelled from the spec: \<open>encoding.sizeVarint\<close> and \<open>encoding.writeVarint\<close> of
  utils/encoding.js, not among the sources, as Bitcoin's variable-length integer; the
  type-2 variant and the string encoder are stand-ins of the same shape (one byte per
  character). They instantiate the parameters in examples.
\<close>

definition std_varint_bytes :: "int \<Rightarrow> buffer" where
  "std_varint_bytes v =
     (if v < 0xfd then [word_of_int v]
      else if v \<le> 0xffff then 0xfd # le_bytes 2 v
      else if v \<le> 0xffffffff then 0xfe # le_bytes 4 v
      else 0xff # le_bytes 8 v)"

definition toy_writer_env :: writer_env where
  "toy_writer_env =
     \<lparr>sizeVarint = (\<lambda>v. int (length (std_varint_bytes v))),
      writeVarint_ext = (\<lambda>d v off. (buf_put d off (std_varint_bytes v),
                                   off + int (length (std_varint_bytes v)))),
      sizeVarint2 = (\<lambda>v. int (length (std_varint_bytes v))),
      writeVarint2_ext = (\<lambda>d v off. (buf_put d off (std_varint_bytes v),
                                   off + int (length (std_varint_bytes v)))),
      byteLength = (\<lambda>s enc. int (length s)),
      buffer_write = (\<lambda>d s off enc. (buf_put d off (map (\<lambda>c. of_nat (of_char c)) s),
                                     int (length s))),
      writer_hash256 = (\<lambda>d. take 32 (rev d @ replicate 32 7))\<rparr>"


section \<open>HD public keys (hd/public.js, protocol/networks.js)\<close>

text \<open>The network table: \<open>network.types\<close> and each network's \<open>keyPrefix\<close>.\<close>

definition network_types :: "string list" where
  "network_types = [''main'', ''testnet'', ''regtest'', ''segnet3'', ''segnet4'', ''simnet'']"

definition keyPrefix_xpubkey :: "string \<Rightarrow> nat" where
  "keyPrefix_xpubkey t =
     (if t = ''main'' then 0x0488b21e
      else if t = ''testnet'' then 0x043587cf
      else if t = ''regtest'' then 0x043587cf
      else if t = ''segnet3'' then 0x053587cf
      else if t = ''segnet4'' then 0x053587cf
      else 0x0420bd3a)"

definition keyPrefix_xpubkey58 :: "string \<Rightarrow> string" where
  "keyPrefix_xpubkey58 t =
     (if t = ''main'' then ''xpub''
      else if t = ''testnet'' then ''tpub''
      else if t = ''regtest'' then ''tpub''
      else if t = ''segnet3'' then ''2793''
      else if t = ''segnet4'' then ''2793''
      else ''spub'')"

text \<open>
  The key object; \<open>network\<close> is the network's type name, \<open>fingerPrint\<close> is \<open>None\<close> for
  \<open>null\<close>.
\<close>

record HDPublicKey =
  network :: string
  depth :: nat
  parentFingerPrint :: buffer
  childIndex :: int
  chainCode :: buffer
  publicKey :: buffer
  fingerPrint :: "buffer option"

text \<open>
  \<open>fromRaw\<close>: the fields are read in order from a fresh reader, on which \<open>start()\<close> is
  never called, then \<open>verifyChecksum\<close>; the network is the first of \<open>network.types\<close>
  whose prefix is the version.
\<close>

definition fromRaw :: "(buffer \<Rightarrow> buffer) \<Rightarrow> buffer \<Rightarrow> error + HDPublicKey" where
  "fromRaw h256 raw =
     (case
        rd_bind readU32BE (\<lambda>version.
        rd_bind readU8 (\<lambda>dep.
        rd_bind (readBytes 4 Undefined) (\<lambda>pfp.
        rd_bind readU32BE (\<lambda>ci.
        rd_bind (readBytes 32 Undefined) (\<lambda>cc.
        rd_bind (readBytes 33 Undefined) (\<lambda>pk.
        rd_bind (verifyChecksum h256) (\<lambda>_.
        rd_return (version, dep, pfp, ci, cc, pk))))))))
          (newBufferReader raw)
      of
        (Inl e, _) \<Rightarrow> Inl e
      | (Inr (version, dep, pfp, ci, cc, pk), _) \<Rightarrow>
          (case filter (\<lambda>t. version = keyPrefix_xpubkey t) network_types of
             [] \<Rightarrow> Inl (AssertionError ''Network not found.'')
           | t # _ \<Rightarrow>
               Inr \<lparr>network = t, depth = dep, parentFingerPrint = pfp, childIndex = int ci,
                    chainCode = cc, publicKey = pk, fingerPrint = None\<rparr>))"

section \<open>HD public keys: derivation (hd/public.js, hd/common.js)\<close>

text \<open>
  Modelled from the spec: \<open>constants.hd.HARDENED\<close> of protocol/constants.js, which is not
  among the sources. The child index has 32 bits and its high bit denotes a hardened
  child, so the threshold is \<open>2^31\<close>.
\<close>

definition HARDENED :: int where
  "HARDENED = 0x80000000"

text \<open>
  What \<open>derive\<close> takes from outside the sources: \<open>crypto.hmac('sha512', data, key)\<close>,
  \<open>ec.publicKeyTweakAdd(key, tweak, true)\<close> (\<open>None\<close> when it throws), \<open>crypto.hash160\<close>, and
  the cache object (an LRU of utils/lru.js, here any type \<open>'k\<close>) with its \<open>get\<close> and
  \<open>set\<close>.
\<close>

record 'k hd_env =
  hmac_sha512 :: "buffer \<Rightarrow> buffer \<Rightarrow> buffer"
  publicKeyTweakAdd :: "buffer \<Rightarrow> buffer \<Rightarrow> buffer option"
  hash160 :: "buffer \<Rightarrow> buffer"
  cache_get :: "'k \<Rightarrow> string \<Rightarrow> HDPublicKey option"
  cache_set :: "'k \<Rightarrow> string \<Rightarrow> HDPublicKey \<Rightarrow> 'k"

text \<open>\<open>buf.toString('hex')\<close> and the decimal digits of a number, as \<open>getID\<close> joins them.\<close>

definition hex_digit :: "nat \<Rightarrow> char" where
  "hex_digit n = (if n < 10 then char_of (48 + n) else char_of (87 + n))"

definition hex_string :: "buffer \<Rightarrow> string" where
  "hex_string b = concat (map (\<lambda>x. [hex_digit (unat x div 16), hex_digit (unat x mod 16)]) b)"

fun dec_string :: "nat \<Rightarrow> string" where
  "dec_string n =
     (if n < 10 then [char_of (48 + n)] else dec_string (n div 10) @ [char_of (48 + n mod 10)])"

definition getID :: "HDPublicKey \<Rightarrow> int \<Rightarrow> string" where
  "getID key index =
     keyPrefix_xpubkey58 (network key) @ hex_string (publicKey key) @ dec_string (nat index)"

text \<open>
  The HMAC of the parent's public key followed by the big-endian index (what the writer
  renders from \<open>writeBytes(this.publicKey); writeU32BE(index)\<close>), keyed by the chain code;
  its left half is the tweak, and \<open>tweak\<close> is the outcome of \<open>ec.publicKeyTweakAdd\<close> for
  an index.
\<close>

definition child_hash :: "'k hd_env \<Rightarrow> HDPublicKey \<Rightarrow> int \<Rightarrow> buffer" where
  "child_hash env key index =
     hmac_sha512 env (publicKey key @ be_bytes 4 index) (chainCode key)"

definition tweak :: "'k hd_env \<Rightarrow> HDPublicKey \<Rightarrow> int \<Rightarrow> buffer option" where
  "tweak env key index =
     publicKeyTweakAdd env (publicKey key) (buf_slice (child_hash env key index) 0 32)"

text \<open>The child that \<open>derive\<close> builds once the tweak has given the point \<open>k\<close>.\<close>

definition new_child :: "'k hd_env \<Rightarrow> HDPublicKey \<Rightarrow> int \<Rightarrow> buffer \<Rightarrow> HDPublicKey" where
  "new_child env key index k =
     \<lparr>network = network key, depth = depth key + 1,
      parentFingerPrint =
        (case fingerPrint key of
           None \<Rightarrow> buf_slice (hash160 env (publicKey key)) 0 4
         | Some f \<Rightarrow> f),
      childIndex = index,
      chainCode = buf_slice (child_hash env key index) 32 64,
      publicKey = k, fingerPrint = None\<rparr>"

text \<open>
  \<open>derive(index, hardened, cache)\<close> for a number \<open>index\<close> (an integer). \<open>hardened\<close> is
  \<open>False\<close> when the second argument is not a boolean, \<open>cache\<close> is the cache object in
  effect (the one passed, or \<open>common.cache\<close>), returned as the call leaves it. The retry
  \<open>this.derive(index + 1, cache)\<close> passes no boolean. The memo \<open>this.fingerPrint\<close> is read;
  setting it on the parent is not tracked.
\<close>

function derive_number ::
  "'k hd_env \<Rightarrow> HDPublicKey \<Rightarrow> int \<Rightarrow> bool \<Rightarrow> 'k \<Rightarrow> (error + HDPublicKey) \<times> 'k" where
  "derive_number env key index hardened cache =
     (if HARDENED \<le> index \<or> hardened then (Inl (Error ''Index out of range.''), cache)
      else if index < 0 then (Inl (Error ''Index out of range.''), cache)
      else if 0xff \<le> depth key then (Inl (Error ''Depth too high.''), cache)
      else
        (case cache_get env cache (getID key index) of
           Some child \<Rightarrow> (Inr child, cache)
         | None \<Rightarrow>
             (case tweak env key index of
                None \<Rightarrow> derive_number env key (index + 1) False cache
              | Some k \<Rightarrow>
                  (Inr (new_child env key index k),
                   cache_set env cache (getID key index) (new_child env key index k)))))"
  by pat_completeness auto
termination
  by (relation "measure (\<lambda>(env, key, index, hardened, cache). nat (HARDENED - index))") auto

declare derive_number.simps [simp del]

text \<open>
  \<open>common.parsePath(path, max)\<close>: \<open>path.split('/')\<close>, the root, then each part with its
  trailing apostrophe, the test \<open>/^\d+$/\<close>, \<open>parseInt\<close> and the range check.
\<close>

fun split_on :: "char \<Rightarrow> string \<Rightarrow> string list" where
  "split_on c [] = [[]]"
| "split_on c (x # xs) =
     (if x = c then [] # split_on c xs
      else (case split_on c xs of [] \<Rightarrow> [[x]] | p # ps \<Rightarrow> (x # p) # ps))"

definition is_digit :: "char \<Rightarrow> bool" where
  "is_digit ch \<longleftrightarrow> 48 \<le> (of_char ch :: nat) \<and> (of_char ch :: nat) \<le> 57"

definition parseInt :: "string \<Rightarrow> int" where
  "parseInt s = foldl (\<lambda>a ch. 10 * a + (int (of_char ch) - 48)) 0 s"

fun parse_parts :: "string list \<Rightarrow> int \<Rightarrow> error + int list" where
  "parse_parts [] mx = Inr []"
| "parse_parts (p # ps) mx =
     (let hardened = (p \<noteq> [] \<and> last p = CHR 0x27);
          digits = (if hardened then butlast p else p)
      in if \<not> (digits \<noteq> [] \<and> list_all is_digit digits)
         then Inl (Error ''Non-number path index.'')
         else
           (let index = parseInt digits + (if hardened then HARDENED else 0)
            in if \<not> (0 \<le> index \<and> index < mx) then Inl (Error ''Index out of range.'')
               else (case parse_parts ps mx of Inl e \<Rightarrow> Inl e | Inr r \<Rightarrow> Inr (index # r))))"

definition parsePath :: "string \<Rightarrow> int \<Rightarrow> error + int list" where
  "parsePath path mx =
     (case split_on (CHR ''/'') path of
        [] \<Rightarrow> Inl (Error ''Bad path root.'')
      | root # parts \<Rightarrow>
          if root \<noteq> ''m'' \<and> root \<noteq> ''M'' \<and> root \<noteq> [CHR ''m'', CHR 0x27]
             \<and> root \<noteq> [CHR ''M'', CHR 0x27]
          then Inl (Error ''Bad path root.'')
          else parse_parts parts mx)"

text \<open>
  \<open>derivePath(path, cache)\<close>: every index of the path goes through
  \<open>key.derive(indexes[i], cache)\<close>, a call without a boolean.
\<close>

fun derive_indexes ::
  "'k hd_env \<Rightarrow> HDPublicKey \<Rightarrow> int list \<Rightarrow> 'k \<Rightarrow> (error + HDPublicKey) \<times> 'k" where
  "derive_indexes env key [] cache = (Inr key, cache)"
| "derive_indexes env key (i # is) cache =
     (case derive_number env key i False cache of
        (Inl e, c) \<Rightarrow> (Inl e, c)
      | (Inr k, c) \<Rightarrow> derive_indexes env k is c)"

definition derivePath ::
  "'k hd_env \<Rightarrow> HDPublicKey \<Rightarrow> string \<Rightarrow> 'k \<Rightarrow> (error + HDPublicKey) \<times> 'k" where
  "derivePath env key path cache =
     (case parsePath path HARDENED of
        Inl e \<Rightarrow> (Inl e, cache)
      | Inr indexes \<Rightarrow> derive_indexes env key indexes cache)"

text \<open>
  \<open>derive\<close> with either kind of \<open>index\<close>: a string is a path and goes to \<open>derivePath\<close>
  before \<open>hardened\<close> is looked at.
\<close>

datatype index_arg = IndexNumber int | IndexPath string

definition derive ::
  "'k hd_env \<Rightarrow> HDPublicKey \<Rightarrow> index_arg \<Rightarrow> bool \<Rightarrow> 'k \<Rightarrow> (error + HDPublicKey) \<times> 'k" where
  "derive env key index hardened cache =
     (case index of
        IndexPath path \<Rightarrow> derivePath env key path cache
      | IndexNumber i \<Rightarrow> derive_number env key i hardened cache)"

text \<open>
  An instance of the parameters for the examples: the cache is an association list, the
  tweak fails exactly for the indices whose low byte is 1, and nothing is a real hash.
\<close>

definition toy_hd :: "((string \<times> HDPublicKey) list) hd_env" where
  "toy_hd =
     \<lparr>hmac_sha512 = (\<lambda>d k. take 64 (rev d @ k @ replicate 64 0)),
      publicKeyTweakAdd =
        (\<lambda>k t. case t of [] \<Rightarrow> None | b # _ \<Rightarrow> if b = 1 then None else Some (take 33 (t @ k))),
      hash160 = (\<lambda>d. take 20 (d @ replicate 20 0)),
      cache_get = map_of,
      cache_set = (\<lambda>c i v. (i, v) # c)\<rparr>"

definition ex_key :: HDPublicKey where
  "ex_key =
     \<lparr>network = ''main'', depth = 0, parentFingerPrint = [0, 0, 0, 0], childIndex = 0,
      chainCode = replicate 32 5, publicKey = 2 # replicate 32 9, fingerPrint = None\<rparr>"

section \<open>Partial merkle trees (primitives/merkleblock.js)\<close>

text \<open>
  A hash is a 32-byte value. \<open>crypto.hash256\<close> of the 64-byte buffer that holds the left
  hash and then the right hash is the parameter \<open>node_hash\<close>; \<open>block_MAX_SIZE\<close> is
  \<open>constants.block.MAX_SIZE\<close>; \<open>ZERO_HASH\<close> is \<open>constants.ZERO_HASH\<close>, the hash of 32 zero
  bytes (crypto/crypto.js and protocol/constants.js are not among the sources).
\<close>

type_synonym hash = "256 word"

record merkle_env =
  node_hash :: "hash \<Rightarrow> hash \<Rightarrow> hash"
  block_MAX_SIZE :: nat

definition ZERO_HASH :: hash where
  "ZERO_HASH = 0"

text \<open>
  The block given to \<open>fromMatches\<close>, as far as it is read: the hash of each transaction
  and the merkle root of the header. The merkle block, as far as \<open>fromMatches\<close> and
  \<open>extractTree\<close> use it; \<open>txs\<close> are the matched transactions, named by their hashes.
\<close>

record Block =
  block_txs :: "hash list"
  block_merkleRoot :: hash

record MerkleBlock =
  merkleRoot :: hash
  totalTX :: nat
  hashes :: "hash list"
  flags :: buffer
  txs :: "hash list"

record PartialTree =
  root :: hash
  matches :: "hash list"
  indexes :: "nat list"
  index_map :: "hash \<rightharpoonup> nat"

text \<open>
  \<open>width(height)\<close> is \<open>(totalTX + (1 << height) - 1) >>> height\<close>. The 32-bit operations
  are exact for \<open>totalTX < 2^30\<close>, which \<open>extractTree\<close> checks before it uses them
  (\<open>totalTX \<le> MAX_SIZE / 60\<close>); the model computes with natural numbers. The loop
  \<open>while (width(height) > 1) height++\<close> is \<open>height_loop\<close>.
\<close>

definition width :: "nat \<Rightarrow> nat \<Rightarrow> nat" where
  "width n h = (n + 2 ^ h - 1) div 2 ^ h"

lemma width_gt_1: "1 < width n h \<Longrightarrow> 2 ^ h < n"
proof (rule ccontr)
  assume w: "1 < width n h" and c: "\<not> 2 ^ h < n"
  have "(0::nat) < 2 ^ h" by simp
  with c have "n + 2 ^ h - 1 < 2 * 2 ^ h" by linarith
  then have "(n + 2 ^ h - 1) div 2 ^ h < 2" by (rule less_mult_imp_div_less)
  with w show False by (simp add: width_def)
qed

function height_loop :: "nat \<Rightarrow> nat \<Rightarrow> nat" where
  "height_loop n h = (if 1 < width n h then height_loop n (h + 1) else h)"
  by pat_completeness auto
termination
proof (relation "measure (\<lambda>(n, h). n - 2 ^ h)", goal_cases)
  case 1
  show ?case by simp
next
  case (2 n h)
  have "0 < k \<Longrightarrow> k < n \<Longrightarrow> n - 2 * k < n - k" for k :: nat by arith
  from this[of "2 ^ h"] width_gt_1[OF 2] show ?case by simp
qed

declare height_loop.simps [simp del]

definition tree_height :: "nat \<Rightarrow> nat" where
  "tree_height n = height_loop n 0"

text \<open>
  \<open>extractTree\<close>. The variables that the closure \<open>traverse\<close> shares are the state; the
  key of \<open>map\<close> is the hex string of a hash, here the hash. \<open>traverse\<close> returns the hash
  of the node and the state.
\<close>

record extract_state =
  bitsUsed :: nat
  hashUsed :: nat
  st_matches :: "hash list"
  st_indexes :: "nat list"
  st_map :: "hash \<rightharpoonup> nat"
  failed :: bool

function extract_traverse ::
  "merkle_env \<Rightarrow> buffer \<Rightarrow> hash list \<Rightarrow> nat \<Rightarrow> nat \<Rightarrow> nat \<Rightarrow> extract_state
     \<Rightarrow> hash \<times> extract_state" where
  "extract_traverse env fl hs n height pos st =
     (if length fl * 8 \<le> bitsUsed st then (ZERO_HASH, st\<lparr>failed := True\<rparr>)
      else
        (let parent = bit (fl ! (bitsUsed st div 8)) (bitsUsed st mod 8);
             st1 = st\<lparr>bitsUsed := bitsUsed st + 1\<rparr>
         in if height = 0 \<or> \<not> parent then
              (if length hs \<le> hashUsed st1 then (ZERO_HASH, st1\<lparr>failed := True\<rparr>)
               else
                 (let hash = hs ! hashUsed st1;
                      st2 = st1\<lparr>hashUsed := hashUsed st1 + 1\<rparr>
                  in if height = 0 \<and> parent
                     then (hash, st2\<lparr>st_matches := st_matches st2 @ [hash],
                                     st_indexes := st_indexes st2 @ [pos],
                                     st_map := (st_map st2)(hash \<mapsto> pos)\<rparr>)
                     else (hash, st2)))
            else
              (case extract_traverse env fl hs n (height - 1) (pos * 2) st1 of
                 (l, st2) \<Rightarrow>
                   if pos * 2 + 1 < width n (height - 1) then
                     (case extract_traverse env fl hs n (height - 1) (pos * 2 + 1) st2 of
                        (r, st3) \<Rightarrow>
                          (node_hash env l r,
                           if r = l then st3\<lparr>failed := True\<rparr> else st3))
                   else (node_hash env l l, st2))))"
  by pat_completeness auto
termination
  by (relation "measure (\<lambda>(env, fl, hs, n, height, pos, st). height)") auto

declare extract_traverse.simps [simp del]

definition extract_init :: extract_state where
  "extract_init =
     \<lparr>bitsUsed = 0, hashUsed = 0, st_matches = [], st_indexes = [], st_map = Map.empty,
      failed = False\<rparr>"

text \<open>
  \<open>extractTree\<close> returns \<open>None\<close> where the code returns \<open>undefined\<close>.
  \<open>totalTX > MAX_SIZE / 60\<close> is a comparison of real numbers.
\<close>

definition extractTree :: "merkle_env \<Rightarrow> MerkleBlock \<Rightarrow> PartialTree option" where
  "extractTree env mb =
     (if totalTX mb = 0 then None
      else if block_MAX_SIZE env < totalTX mb * 60 then None
      else if totalTX mb < length (hashes mb) then None
      else if length (flags mb) * 8 < length (hashes mb) then None
      else
        (case extract_traverse env (flags mb) (hashes mb) (totalTX mb)
                (tree_height (totalTX mb)) 0 extract_init of
           (r, st) \<Rightarrow>
             if failed st then None
             else if (bitsUsed st + 7) div 8 \<noteq> length (flags mb) then None
             else if hashUsed st \<noteq> length (hashes mb) then None
             else Some \<lparr>root = r, matches = st_matches st, indexes = st_indexes st,
                        index_map = st_map st\<rparr>))"

definition verifyPartial :: "merkle_env \<Rightarrow> MerkleBlock \<Rightarrow> bool" where
  "verifyPartial env mb =
     (case extractTree env mb of None \<Rightarrow> False | Some t \<Rightarrow> root t = merkleRoot mb)"

text \<open>
  \<open>fromMatches\<close>. \<open>matches[p]\<close> is 0 or 1, and \<open>undefined\<close> beyond the vector, which
  counts as 0. The closure \<open>hash\<close> is \<open>build_hash\<close>: a leaf read beyond the transactions is
  \<open>undefined\<close>, on which \<open>copy\<close> throws a TypeError, here \<open>None\<close>. The closure \<open>traverse\<close> is
  \<open>build_traverse\<close> on the pair of the lists \<open>bits\<close> and \<open>hashes\<close>.
\<close>

definition match_at :: "bool list \<Rightarrow> nat \<Rightarrow> bool" where
  "match_at ms p \<longleftrightarrow> p < length ms \<and> ms ! p"

fun build_hash :: "merkle_env \<Rightarrow> nat \<Rightarrow> hash list \<Rightarrow> nat \<Rightarrow> nat \<Rightarrow> hash option" where
  "build_hash env n leaves 0 pos = (if pos < length leaves then Some (leaves ! pos) else None)"
| "build_hash env n leaves (Suc h) pos =
     (case build_hash env n leaves h (pos * 2) of
        None \<Rightarrow> None
      | Some l \<Rightarrow>
          if pos * 2 + 1 < width n h then
            (case build_hash env n leaves h (pos * 2 + 1) of
               None \<Rightarrow> None
             | Some r \<Rightarrow> Some (node_hash env l r))
          else Some (node_hash env l l))"

definition subtree_matched :: "nat \<Rightarrow> bool list \<Rightarrow> nat \<Rightarrow> nat \<Rightarrow> bool" where
  "subtree_matched n ms h pos \<longleftrightarrow>
     list_ex (match_at ms) [pos * 2 ^ h ..< min ((pos + 1) * 2 ^ h) n]"

function build_traverse ::
  "merkle_env \<Rightarrow> nat \<Rightarrow> hash list \<Rightarrow> bool list \<Rightarrow> nat \<Rightarrow> nat \<Rightarrow> bool list \<times> hash list
     \<Rightarrow> (bool list \<times> hash list) option" where
  "build_traverse env n leaves ms height pos st =
     (case st of
        (bits, hs) \<Rightarrow>
          (let parent = subtree_matched n ms height pos;
               bits1 = bits @ [parent]
           in if height = 0 \<or> \<not> parent then
                (case build_hash env n leaves height pos of
                   None \<Rightarrow> None
                 | Some x \<Rightarrow> Some (bits1, hs @ [x]))
              else
                (case build_traverse env n leaves ms (height - 1) (pos * 2) (bits1, hs) of
                   None \<Rightarrow> None
                 | Some st1 \<Rightarrow>
                     if pos * 2 + 1 < width n (height - 1)
                     then build_traverse env n leaves ms (height - 1) (pos * 2 + 1) st1
                     else Some st1)))"
  by pat_completeness auto
termination
  by (relation "measure (\<lambda>(env, n, leaves, ms, height, pos, st). height)") auto

declare build_traverse.simps [simp del]

text \<open>
  The flag bytes: \<open>flags[p / 8 | 0] |= bits[p] << (p % 8)\<close> for every bit, on a buffer of
  zeros.
\<close>

definition set_flag :: "bool list \<Rightarrow> buffer \<Rightarrow> nat \<Rightarrow> buffer" where
  "set_flag bits fl p =
     fl[p div 8 := (fl ! (p div 8)) OR push_bit (p mod 8) (if bits ! p then 1 else 0)]"

definition pack_flags :: "bool list \<Rightarrow> buffer" where
  "pack_flags bits =
     foldl (set_flag bits) (replicate ((length bits + 7) div 8) 0) [0..<length bits]"

definition fromMatches :: "merkle_env \<Rightarrow> Block \<Rightarrow> bool list \<Rightarrow> MerkleBlock option" where
  "fromMatches env block ms =
     (let leaves = block_txs block;
          n = length leaves
      in case build_traverse env n leaves ms (tree_height n) 0 ([], []) of
           None \<Rightarrow> None
         | Some (bits, hs) \<Rightarrow>
             Some \<lparr>merkleRoot = block_merkleRoot block, totalTX = n, hashes = hs,
                   flags = pack_flags bits,
                   txs = map (\<lambda>i. leaves ! i) (filter (match_at ms) [0..<n])\<rparr>)"

text \<open>
  Whether every node at which \<open>fromMatches\<close> descends and which has two children has
  children of different hashes, and whether some node at which \<open>extractTree\<close> descends has
  two children of the same hash.
\<close>

fun siblings_differ :: "merkle_env \<Rightarrow> nat \<Rightarrow> hash list \<Rightarrow> bool list \<Rightarrow> nat \<Rightarrow> nat \<Rightarrow> bool" where
  "siblings_differ env n leaves ms 0 pos = True"
| "siblings_differ env n leaves ms (Suc h) pos =
     (if \<not> subtree_matched n ms (Suc h) pos then True
      else siblings_differ env n leaves ms h (pos * 2)
         \<and> (if pos * 2 + 1 < width n h
            then siblings_differ env n leaves ms h (pos * 2 + 1)
               \<and> build_hash env n leaves h (pos * 2) \<noteq> build_hash env n leaves h (pos * 2 + 1)
            else True))"

fun sibling_clash ::
  "merkle_env \<Rightarrow> buffer \<Rightarrow> hash list \<Rightarrow> nat \<Rightarrow> nat \<Rightarrow> nat \<Rightarrow> extract_state \<Rightarrow> bool" where
  "sibling_clash env fl hs n 0 pos st = False"
| "sibling_clash env fl hs n (Suc h) pos st =
     (if length fl * 8 \<le> bitsUsed st then False
      else if \<not> bit (fl ! (bitsUsed st div 8)) (bitsUsed st mod 8) then False
      else
        (let st1 = st\<lparr>bitsUsed := bitsUsed st + 1\<rparr>;
             l = extract_traverse env fl hs n h (pos * 2) st1
         in sibling_clash env fl hs n h (pos * 2) st1
          \<or> (if pos * 2 + 1 < width n h
              then sibling_clash env fl hs n h (pos * 2 + 1) (snd l)
                 \<or> fst (extract_traverse env fl hs n h (pos * 2 + 1) (snd l)) = fst l
              else False)))"

text \<open>An instance of the parameters for the examples; the node hash is no real hash.\<close>

definition toy_merkle :: merkle_env where
  "toy_merkle = \<lparr>node_hash = (\<lambda>l r. 3 * l + 5 * r + 1), block_MAX_SIZE = 1000000\<rparr>"

section \<open>BIP151 streams and sessions (net/bip151.js)\<close>

text \<open>
  The ciphers belong to crypto/chachapoly.js and crypto/crypto.js, which are not among
  the sources. They are parameters: \<open>'c\<close> is the state of a \<open>ChaCha20\<close> object, \<open>'a\<close> the
  state of an \<open>AEAD\<close> object, and every method takes the state and returns the new one
  (and the bytes it produces; \<open>encrypt\<close> works in place). \<open>init\<close> takes \<open>None\<close> for a
  \<open>null\<close> key. \<open>MAX_MESSAGE\<close> is \<open>constants.MAX_MESSAGE\<close>. The module has two hash
  functions of a buffer: \<open>crypto.sha256\<close>, one round of SHA-256 (hd/mnemonic.js calls it),
  and \<open>crypto.hash256\<close>, which \<open>rekey\<close> calls.
\<close>

record ('c, 'a) crypto =
  sha256 :: "buffer \<Rightarrow> buffer"
  hash256 :: "buffer \<Rightarrow> buffer"
  chacha_init :: "'c \<Rightarrow> buffer option \<Rightarrow> buffer \<Rightarrow> 'c"
  chacha_encrypt :: "'c \<Rightarrow> buffer \<Rightarrow> buffer \<times> 'c"
  aead_init :: "'a \<Rightarrow> buffer option \<Rightarrow> buffer \<Rightarrow> 'a"
  aead_encrypt :: "'a \<Rightarrow> buffer \<Rightarrow> buffer \<times> 'a"
  aead_auth :: "'a \<Rightarrow> buffer \<Rightarrow> 'a"
  aead_finish :: "'a \<Rightarrow> buffer \<times> 'a"
  aead_chacha20_encrypt :: "'a \<Rightarrow> buffer \<Rightarrow> buffer \<times> 'a"
  poly1305_verify :: "buffer \<Rightarrow> buffer \<Rightarrow> bool"
  MAX_MESSAGE :: nat

text \<open>
  The stream object; \<open>None\<close> is \<open>null\<close>. The ECDH material (\<open>privateKey\<close>, \<open>publicKey\<close>,
  \<open>secret\<close>) is used by \<open>init\<close> only and is left out.
\<close>

record ('c, 'a) BIP151Stream =
  cipher :: nat
  prk :: "buffer option"
  k1 :: "buffer option"
  k2 :: "buffer option"
  sid :: "buffer option"
  chacha :: 'c
  aead :: 'a
  tag :: "buffer option"
  seq :: nat
  iv :: buffer
  processed :: nat
  lastRekey :: nat

text \<open>
  \<open>rekey(k1, k2)\<close>. \<open>new Buffer(64)\<close> is uninitialised memory, modelled as zeros; the
  copies overwrite all of it when the session id and the keys have 32 bytes. A \<open>null\<close>
  session id or key makes \<open>copy\<close> throw a TypeError.
\<close>

definition rekey ::
  "('c, 'a) crypto \<Rightarrow> buffer option \<Rightarrow> buffer option \<Rightarrow> ('c, 'a) BIP151Stream
     \<Rightarrow> error + ('c, 'a) BIP151Stream" where
  "rekey cr nk1 nk2 s =
     (if prk s = None then Inl (AssertionError ''Cannot rekey before initialization.'')
      else
        (case nk1 of
           None \<Rightarrow>
             (case (sid s, k1 s, k2 s) of
                (Some sd, Some a, Some b) \<Rightarrow>
                  (let seed0 = replicate 64 0;
                       seed1 = buf_put seed0 0 sd;
                       seed2 = buf_put seed1 32 a;
                       k1' = hash256 cr seed2;
                       seed3 = buf_put seed2 32 b;
                       k2' = hash256 cr seed3
                   in Inr (s\<lparr>k1 := Some k1', k2 := Some k2',
                             chacha := chacha_init cr (chacha s) (Some k1') (iv s),
                             aead := aead_init cr (aead s) (Some k2') (iv s)\<rparr>))
              | _ \<Rightarrow> Inl (TypeError ''copy''))
         | Some nk \<Rightarrow>
             Inr (s\<lparr>k1 := Some nk, k2 := nk2,
                    chacha := chacha_init cr (chacha s) (Some nk) (iv s),
                    aead := aead_init cr (aead s) nk2 (iv s)\<rparr>)))"

text \<open>\<open>update()\<close>: \<open>this.iv.writeUInt32LE(this.seq, 0, true)\<close>.\<close>

definition update :: "('c, 'a) BIP151Stream \<Rightarrow> ('c, 'a) BIP151Stream" where
  "update s = s\<lparr>iv := buf_put (iv s) 0 (le_bytes 4 (int (seq s)))\<rparr>"

text \<open>\<open>sequence()\<close>: the sequence number wraps at \<open>0x100000000\<close>.\<close>

definition sequence :: "('c, 'a) crypto \<Rightarrow> ('c, 'a) BIP151Stream \<Rightarrow> ('c, 'a) BIP151Stream" where
  "sequence cr s =
     (let s1 = s\<lparr>seq := (if seq s + 1 = 0x100000000 then 0 else seq s + 1)\<rparr>;
          s2 = update s1
      in s2\<lparr>chacha := chacha_init cr (chacha s2) None (iv s2),
             aead := aead_init cr (aead s2) None (iv s2)\<rparr>)"

definition decryptSize ::
  "('c, 'a) crypto \<Rightarrow> buffer \<Rightarrow> ('c, 'a) BIP151Stream \<Rightarrow> nat \<times> ('c, 'a) BIP151Stream" where
  "decryptSize cr d s =
     (case chacha_encrypt cr (chacha s) d of (d', c') \<Rightarrow> (readUInt32LE d' 0, s\<lparr>chacha := c'\<rparr>))"

definition decrypt ::
  "('c, 'a) crypto \<Rightarrow> buffer \<Rightarrow> ('c, 'a) BIP151Stream \<Rightarrow> buffer \<times> ('c, 'a) BIP151Stream" where
  "decrypt cr d s =
     (case aead_chacha20_encrypt cr (aead s) d of (d', a') \<Rightarrow> (d', s\<lparr>aead := a'\<rparr>))"

definition auth :: "('c, 'a) crypto \<Rightarrow> buffer \<Rightarrow> ('c, 'a) BIP151Stream \<Rightarrow> ('c, 'a) BIP151Stream" where
  "auth cr d s = s\<lparr>aead := aead_auth cr (aead s) d\<rparr>"

definition finish :: "('c, 'a) crypto \<Rightarrow> ('c, 'a) BIP151Stream \<Rightarrow> buffer \<times> ('c, 'a) BIP151Stream" where
  "finish cr s = (case aead_finish cr (aead s) of (t, a') \<Rightarrow> (t, s\<lparr>tag := Some t, aead := a'\<rparr>))"

text \<open>
  \<open>verify(tag)\<close> compares with \<open>this.tag\<close>, which \<open>finish\<close> has set wherever the code
  calls \<open>verify\<close>.
\<close>

definition verify :: "('c, 'a) crypto \<Rightarrow> buffer \<Rightarrow> ('c, 'a) BIP151Stream \<Rightarrow> bool" where
  "verify cr t s = (case tag s of None \<Rightarrow> False | Some m \<Rightarrow> poly1305_verify cr m t)"

text \<open>The session object (the timeout, the callback and \<open>bip150\<close> are left out).\<close>

record ('c, 'a) BIP151 =
  input :: "('c, 'a) BIP151Stream"
  "output" :: "('c, 'a) BIP151Stream"
  initReceived :: bool
  ackReceived :: bool
  initSent :: bool
  ackSent :: bool
  completed :: bool
  handshake :: bool
  pending :: "buffer list"
  total :: nat
  waiting :: nat
  hasSize :: bool

text \<open>
  What a session emits: \<open>emit('error', ...)\<close> for a bad packet size (with the size), for a
  bad tag (with the tag) and for an error thrown by the reader; \<open>emit('packet', cmd, body)\<close>.
\<close>

datatype event = BadPacketSize nat | BadTag buffer | ReadError error | Packet string buffer

text \<open>
  \<open>read(size)\<close>. The copying loop fills \<open>chunk\<close> from the front of \<open>pending\<close>: \<open>acc\<close> is
  the part of \<open>chunk\<close> written so far (\<open>off\<close> bytes), \<open>n\<close> is \<open>chunk.length - off\<close>. An
  empty \<open>pending\<close> makes \<open>pending[0].length\<close> throw a TypeError.
\<close>

fun read_loop :: "buffer \<Rightarrow> nat \<Rightarrow> buffer list \<Rightarrow> error + (buffer \<times> buffer list)" where
  "read_loop acc 0 ps = Inr (acc, ps)"
| "read_loop acc (Suc n) [] = Inl (TypeError ''pending[0]'')"
| "read_loop acc (Suc n) (p # ps) =
     (if length p \<le> Suc n then read_loop (acc @ p) (Suc n - length p) ps
      else Inr (acc @ take (Suc n) p, drop (Suc n) p # ps))"

definition read :: "nat \<Rightarrow> ('c, 'a) BIP151 \<Rightarrow> error + (buffer \<times> ('c, 'a) BIP151)" where
  "read n s =
     (if total s < n then Inl (AssertionError ''Reading too much.'')
      else if n = 0 then Inr ([], s)
      else
        (case pending s of
           [] \<Rightarrow> Inl (TypeError ''pending[0]'')
         | p # ps \<Rightarrow>
             if n < length p
             then Inr (take n p, s\<lparr>pending := drop n p # ps, total := total s - n\<rparr>)
             else if length p = n
             then Inr (p, s\<lparr>pending := ps, total := total s - length p\<rparr>)
             else
               (case read_loop [] n (pending s) of
                  Inl e \<Rightarrow> Inl e
                | Inr (chunk, ps') \<Rightarrow>
                    Inr (chunk, s\<lparr>pending := ps', total := total s - length chunk\<rparr>))))"

text \<open>
  The body of the \<open>try\<close> block in \<open>parse\<close>:
  \<open>cmd = br.readVarString('ascii'); body = br.readBytes(br.readU32())\<close>.
\<close>

definition read_message :: "varint_reader \<Rightarrow> decoder \<Rightarrow> (string \<times> buffer) rd" where
  "read_message rv dec =
     rd_bind (readVarString rv dec ''ascii'' None) (\<lambda>cmd.
     rd_bind readU32 (\<lambda>n.
     rd_bind (readBytes n Undefined) (\<lambda>body.
     rd_return (cmd, body))))"

text \<open>A message that is read takes at least the four bytes of its length field.\<close>

lemma read_message_progress:
  assumes "read_message rv dec br = (Inr x, br')"
  shows "data br' = data br \<and> offset br < offset br' \<and> offset br' \<le> length (data br')"
  using assms
  by (auto simp: read_message_def rd_bind_def rd_return_def readVarString_def readVarint_def
      readString_def readU32_def readBytes_def split: sum.splits prod.splits if_splits)

text \<open>
  The loop \<open>while (br.left())\<close> of \<open>parse\<close>. The result is the list of events emitted
  and the error thrown out of the loop, if any: \<open>left()\<close> is called outside the \<open>try\<close>
  block, an error of the reads inside it is emitted and ends the loop.
\<close>

function parse_packets :: "varint_reader \<Rightarrow> decoder \<Rightarrow> BufferReader \<Rightarrow> event list \<times> error option" where
  "parse_packets rv dec br =
     (case left br of
        (Inl e, _) \<Rightarrow> ([], Some e)
      | (Inr n, _) \<Rightarrow>
          if n = 0 then ([], None)
          else
            (case read_message rv dec br of
               (Inl e, _) \<Rightarrow> ([ReadError e], None)
             | (Inr (cmd, body), br') \<Rightarrow>
                 (case parse_packets rv dec br' of (evs, t) \<Rightarrow> (Packet cmd body # evs, t))))"
  by pat_completeness auto
termination
proof (relation "measure (\<lambda>(rv, dec, br). length (data br) - offset br)", goal_cases)
  case 1
  show ?case by simp
next
  case 2
  then show ?case
    by (auto dest!: read_message_progress[OF sym] simp: left_def split: if_splits)
qed


text \<open>
  \<open>parse(data)\<close>: the new session, the events emitted and the error thrown, if any.
  \<open>data.slice(0, this.waiting - 16)\<close> is modelled for \<open>16 \<le> waiting\<close>, which holds
  whenever \<open>hasSize\<close> is set by the code (\<open>waiting = size + 16\<close>). The payload is
  decrypted in place, so the reader is created on the decrypted bytes.
\<close>

definition parse ::
  "('c, 'a) crypto \<Rightarrow> varint_reader \<Rightarrow> decoder \<Rightarrow> buffer \<Rightarrow> ('c, 'a) BIP151
     \<Rightarrow> ('c, 'a) BIP151 \<times> event list \<times> error option" where
  "parse cr rv dec d s =
     (if \<not> hasSize s then
        (case decryptSize cr d (input s) of
           (n, inp) \<Rightarrow>
             if n < 6 \<or> MAX_MESSAGE cr * 3 < n
             then (s\<lparr>input := inp, waiting := 4\<rparr>, [BadPacketSize n], None)
             else (s\<lparr>input := inp, hasSize := True, waiting := n + 16\<rparr>, [], None))
      else
        (let payload = buf_slice d 0 (waiting s - 16);
             tg = buf_slice d (waiting s - 16) (waiting s);
             s1 = s\<lparr>hasSize := False, waiting := 4\<rparr>;
             inp1 = auth cr payload (input s1);
             inp2 = snd (finish cr inp1)
         in if \<not> verify cr tg inp2
            then (s1\<lparr>input := sequence cr inp2\<rparr>, [BadTag tg], None)
            else
              (case decrypt cr payload inp2 of
                 (payload', inp3) \<Rightarrow>
                   (case parse_packets rv dec (newBufferReader payload') of
                      (evs, t) \<Rightarrow> (s1\<lparr>input := sequence cr inp3\<rparr>, evs, t)))))"

lemma parse_total: "parse cr rv dec d s = (s', evs, t) \<Longrightarrow> total s' = total s \<and> pending s' = pending s"
  by (auto simp: parse_def Let_def split: if_splits prod.splits)

lemma read_loop_length:
  "read_loop acc n ps = Inr (chunk, ps') \<Longrightarrow> length chunk = length acc + n"
  by (induction acc n ps rule: read_loop.induct) (auto split: if_splits)

lemma read_total:
  "read n s = Inr (chunk, s1) \<Longrightarrow> total s1 = total s - n \<and> n \<le> total s"
  by (auto simp: read_def dest: read_loop_length split: if_splits list.splits sum.splits)

text \<open>
  The loop of \<open>feed\<close>. \<open>waiting\<close> is 4 or \<open>size + 16\<close> in every state the code produces;
  the loop is modelled for \<open>0 < waiting\<close>. An error thrown by \<open>read\<close> or \<open>parse\<close> leaves
  the loop.
\<close>

function feed_loop ::
  "('c, 'a) crypto \<Rightarrow> varint_reader \<Rightarrow> decoder \<Rightarrow> ('c, 'a) BIP151
     \<Rightarrow> ('c, 'a) BIP151 \<times> event list \<times> error option" where
  "feed_loop cr rv dec s =
     (if waiting s \<le> total s \<and> 0 < waiting s then
        (case read (waiting s) s of
           Inl e \<Rightarrow> (s, [], Some e)
         | Inr (chunk, s1) \<Rightarrow>
             (case parse cr rv dec chunk s1 of
                (s2, evs, Some e) \<Rightarrow> (s2, evs, Some e)
              | (s2, evs, None) \<Rightarrow>
                  (case feed_loop cr rv dec s2 of (s3, evs', t) \<Rightarrow> (s3, evs @ evs', t))))
      else (s, [], None))"
  by pat_completeness auto
termination
proof (relation "measure (\<lambda>(cr, rv, dec, s). total s)", goal_cases)
  case 1
  show ?case by simp
next
  case 2
  then show ?case
    by (auto dest!: read_total parse_total[OF sym])
qed

definition feed ::
  "('c, 'a) crypto \<Rightarrow> varint_reader \<Rightarrow> decoder \<Rightarrow> buffer \<Rightarrow> ('c, 'a) BIP151
     \<Rightarrow> ('c, 'a) BIP151 \<times> event list \<times> error option" where
  "feed cr rv dec d s = feed_loop cr rv dec (s\<lparr>total := total s + length d, pending := pending s @ [d]\<rparr>)"

declare parse_packets.simps [simp del]
declare feed_loop.simps [simp del]

text \<open>
  Feeding a list of chunks, one call of \<open>feed\<close> per chunk, in order; the events of the
  calls are appended. A call that throws ends the feeding.
\<close>

fun feed_chunks ::
  "('c, 'a) crypto \<Rightarrow> varint_reader \<Rightarrow> decoder \<Rightarrow> buffer list \<Rightarrow> ('c, 'a) BIP151
     \<Rightarrow> ('c, 'a) BIP151 \<times> event list \<times> error option" where
  "feed_chunks cr rv dec [] s = (s, [], None)"
| "feed_chunks cr rv dec (c # cs) s =
     (case feed cr rv dec c s of
        (s1, evs, Some e) \<Rightarrow> (s1, evs, Some e)
      | (s1, evs, None) \<Rightarrow>
          (case feed_chunks cr rv dec cs s1 of (s2, evs', t) \<Rightarrow> (s2, evs @ evs', t)))"

text \<open>
  The first step of \<open>feed\<close> (\<open>this.total += data.length; this.pending.push(data)\<close>), and
  a session with its pending chunks joined into one buffer: two sessions with the same
  \<open>flat\<close> differ only in how the buffered bytes are cut into chunks.
\<close>

definition push :: "buffer \<Rightarrow> ('c, 'a) BIP151 \<Rightarrow> ('c, 'a) BIP151" where
  "push d s = s\<lparr>total := total s + length d, pending := pending s @ [d]\<rparr>"

definition flat :: "('c, 'a) BIP151 \<Rightarrow> ('c, 'a) BIP151" where
  "flat s = s\<lparr>pending := [concat (pending s)]\<rparr>"

text \<open>
  The states of the framing that the code produces: \<open>total\<close> counts the pending bytes and
  \<open>waiting\<close> is 4 before a size prefix and \<open>size + 16\<close> after it (\<open>wf\<close>); between two calls
  of \<open>feed\<close> fewer than \<open>waiting\<close> bytes are pending (\<open>quiescent\<close>). The constructor's
  state (\<open>pending = []\<close>, \<open>total = 0\<close>, \<open>waiting = 4\<close>, \<open>hasSize = false\<close>) is quiescent.
\<close>

definition wf :: "('c, 'a) BIP151 \<Rightarrow> bool" where
  "wf s \<longleftrightarrow> total s = length (concat (pending s)) \<and>
     (if hasSize s then 16 \<le> waiting s else waiting s = 4)"

definition quiescent :: "('c, 'a) BIP151 \<Rightarrow> bool" where
  "quiescent s \<longleftrightarrow> wf s \<and> total s < waiting s"

text \<open>
  An instance of the parameters for the examples: it has the shape of the ciphers and
  none of their strength. The states of both cipher objects are counters. The digest
  \<open>toy_sha256\<close> has 32 bytes and depends on every byte of its input; \<open>hash256\<close> applies
  it twice, as the double SHA-256 applies SHA-256 twice.
\<close>

definition toy_sha256 :: "buffer \<Rightarrow> buffer" where
  "toy_sha256 d = take 32 (map (\<lambda>b. 3 * b + sum_list d + 1) (rev d) @ replicate 32 0)"

definition toy_crypto :: "(nat, nat) crypto" where
  "toy_crypto =
     \<lparr>sha256 = toy_sha256,
      hash256 = (\<lambda>d. toy_sha256 (toy_sha256 d)),
      chacha_init = (\<lambda>c k v. 0),
      chacha_encrypt = (\<lambda>c d. (map (\<lambda>b. b XOR 0x55) d, c + length d)),
      aead_init = (\<lambda>a k v. 0),
      aead_encrypt = (\<lambda>a d. (map (\<lambda>b. b XOR 0xAA) d, a + length d)),
      aead_auth = (\<lambda>a d. a + length d),
      aead_finish = (\<lambda>a. (replicate 16 (of_nat a), a)),
      aead_chacha20_encrypt = (\<lambda>a d. (map (\<lambda>b. b XOR 0xAA) d, a)),
      poly1305_verify = (\<lambda>m t. m = t),
      MAX_MESSAGE = 4000000\<rparr>"

definition ex_stream :: "(nat, nat) BIP151Stream" where
  "ex_stream =
     \<lparr>cipher = 0, prk = Some (replicate 32 1), k1 = Some (replicate 32 2),
      k2 = Some (replicate 32 3), sid = Some (replicate 32 4), chacha = 0, aead = 0,
      tag = None, seq = 7, iv = [7, 0, 0, 0, 0, 0, 0, 0], processed = 0, lastRekey = 0\<rparr>"

definition ex_session :: "(nat, nat) BIP151" where
  "ex_session =
     \<lparr>input = ex_stream, output = ex_stream, initReceived = True, ackReceived = True,
      initSent = True, ackSent = True, completed = True, handshake = True,
      pending = [], total = 0, waiting = 4, hasSize = False\<rparr>"

chapter \<open>Theorems\<close>

section \<open>Buffers\<close>

lemma buf_put_length: "length (buf_put d off bs) = length d"
  by (simp add: buf_put_def)

section \<open>BufferReader\<close>

text \<open>
  C6 (as stated, refuted): both \<open>readVarBytes\<close> and \<open>readVarString\<close> are said to accept a
  maximum-length guard and to fail when the decoded length exceeds it. \<open>readVarBytes\<close> has
  one parameter, the zero-copy flag: the call \<open>readVarBytes(2)\<close> on a buffer holding the
  length prefix 3 and three bytes returns the three bytes and consumes them.
\<close>

theorem C6_readVarBytes_no_guard:
  "readVarBytes std_readVarint (Number 2) (newBufferReader [3, 1, 2, 3]) =
     (Inr [1, 2, 3], \<lparr>data = [3, 1, 2, 3], offset = 4, zeroCopy = False, stack = []\<rparr>)"
  by (simp add: readVarBytes_def readVarint_def rd_bind_def readBytes_def buf_slice_def
      std_readVarint_def newBufferReader_def)

text \<open>
  C6 (amended): \<open>readVarString\<close> takes an optional limit; when the limit is a non-zero
  number and the decoded length exceeds it, the read throws ``String exceeds limit.''
  after consuming the length prefix only, and without a limit (or with the limit 0) it
  reads the string. \<open>readVarBytes\<close> takes no limit: whatever its argument, it throws,
  before the copy is allocated and with the length prefix only consumed, exactly when the
  decoded length exceeds the bytes left in the buffer, and returns the bytes otherwise.
\<close>

theorem C6_length_guard:
  assumes "rv (data r) (offset r) = Inr (sz, v)"
  shows "(limit = Some l \<and> l \<noteq> 0 \<and> l < int v \<longrightarrow>
            readVarString rv dec enc limit r =
              (Inl (AssertionError ''String exceeds limit.''), r\<lparr>offset := offset r + sz\<rparr>))
       \<and> ((limit = None \<or> limit = Some 0 \<or> (limit = Some l \<and> int v \<le> l)) \<longrightarrow>
            readVarString rv dec enc limit r = readString dec enc v (r\<lparr>offset := offset r + sz\<rparr>))
       \<and> (length (data r) < offset r + sz + v \<longrightarrow>
            readVarBytes rv zc r = (Inl (AssertionError []), r\<lparr>offset := offset r + sz\<rparr>))
       \<and> (offset r + sz + v \<le> length (data r) \<longrightarrow>
            readVarBytes rv zc r =
              (Inr (take v (drop (offset r + sz) (data r))), r\<lparr>offset := offset r + sz + v\<rparr>))"
  using assms
  by (auto simp: readVarString_def readVarBytes_def readVarint_def rd_bind_def readBytes_def
      buf_slice_def add.assoc)

theorem C6_length_guard_witness:
  "readVarString std_readVarint latin1_decode ''ascii'' (Some 2) (newBufferReader [3, 1, 2, 3]) =
     (Inl (AssertionError ''String exceeds limit.''),
      \<lparr>data = [3, 1, 2, 3], offset = 1, zeroCopy = False, stack = []\<rparr>)
   \<and> readVarBytes std_readVarint Undefined (newBufferReader [9, 1, 2, 3]) =
     (Inl (AssertionError []), \<lparr>data = [9, 1, 2, 3], offset = 1, zeroCopy = False, stack = []\<rparr>)"
  using C6_length_guard[where rv=std_readVarint and r="newBufferReader [3, 1, 2, 3]" and sz=1
      and v=3 and limit="Some 2" and l=2 and dec=latin1_decode and enc="''ascii''"]
    C6_length_guard[where rv=std_readVarint and r="newBufferReader [9, 1, 2, 3]" and sz=1
      and v=9 and zc=Undefined]
  by (simp add: std_readVarint_def newBufferReader_def)

text \<open>
  C10: on a reader whose span stack is empty, \<open>createChecksum\<close> hashes the bytes from
  offset 0 up to the current offset, and \<open>verifyChecksum\<close> compares that checksum with the
  next four bytes: it fails only when fewer than four bytes are left or the checksum
  differs, never for the missing mark. \<open>fromRaw\<close> of an HD public key never calls
  \<open>start()\<close>: it accepts a key exactly when at least 82 bytes are given, the checksum of
  the first 78 bytes is stored in the next four, and the version is a known prefix.
\<close>

theorem C10_checksum_without_mark:
  "(stack r = [] \<longrightarrow>
      createChecksum h r = readUInt32LE (h (take (offset r) (data r))) 0
    \<and> verifyChecksum h r =
        (if length (data r) < offset r + 4 then (Inl (AssertionError []), r)
         else if readUInt32LE (h (take (offset r) (data r))) 0 = readUInt32LE (data r) (offset r)
         then (Inr (readUInt32LE (data r) (offset r)), r\<lparr>offset := offset r + 4\<rparr>)
         else (Inl (AssertionError ''Checksum mismatch.''), r\<lparr>offset := offset r + 4\<rparr>)))
   \<and> fromRaw h raw =
     (if length raw < 82 then Inl (AssertionError [])
      else if readUInt32LE (h (take 78 raw)) 0 \<noteq> readUInt32LE raw 78
      then Inl (AssertionError ''Checksum mismatch.'')
      else (case filter (\<lambda>t. readUInt32BE raw 0 = keyPrefix_xpubkey t) network_types of
             [] \<Rightarrow> Inl (AssertionError ''Network not found.'')
           | t # _ \<Rightarrow>
               Inr \<lparr>network = t, depth = unat (raw ! 4), parentFingerPrint = take 4 (drop 5 raw),
                    childIndex = int (readUInt32BE raw 9),
                    chainCode = take 32 (drop 13 raw), publicKey = take 33 (drop 45 raw),
                    fingerPrint = None\<rparr>))"
proof -
  have "stack r = [] \<longrightarrow>
      createChecksum h r = readUInt32LE (h (take (offset r) (data r))) 0
    \<and> verifyChecksum h r =
        (if length (data r) < offset r + 4 then (Inl (AssertionError []), r)
         else if readUInt32LE (h (take (offset r) (data r))) 0 = readUInt32LE (data r) (offset r)
         then (Inr (readUInt32LE (data r) (offset r)), r\<lparr>offset := offset r + 4\<rparr>)
         else (Inl (AssertionError ''Checksum mismatch.''), r\<lparr>offset := offset r + 4\<rparr>))"
    by (auto simp: createChecksum_def verifyChecksum_def buf_slice_def rd_bind_def readU32_def
        Let_def)
  moreover have "fromRaw h raw =
     (if length raw < 82 then Inl (AssertionError [])
      else if readUInt32LE (h (take 78 raw)) 0 \<noteq> readUInt32LE raw 78
      then Inl (AssertionError ''Checksum mismatch.'')
      else (case filter (\<lambda>t. readUInt32BE raw 0 = keyPrefix_xpubkey t) network_types of
             [] \<Rightarrow> Inl (AssertionError ''Network not found.'')
           | t # _ \<Rightarrow>
               Inr \<lparr>network = t, depth = unat (raw ! 4), parentFingerPrint = take 4 (drop 5 raw),
                    childIndex = int (readUInt32BE raw 9),
                    chainCode = take 32 (drop 13 raw), publicKey = take 33 (drop 45 raw),
                    fingerPrint = None\<rparr>))"
    by (auto simp: fromRaw_def rd_bind_def rd_return_def readU32BE_def readU8_def readBytes_def
        verifyChecksum_def createChecksum_def readU32_def newBufferReader_def buf_slice_def
        Let_def split: list.splits)
  ultimately show ?thesis by blast
qed

theorem C10_checksum_without_mark_witness:
  "createChecksum (\<lambda>d. d @ [7, 7, 7, 7])
      \<lparr>data = [1, 0, 0, 0, 1, 0, 0, 0], offset = 1, zeroCopy = False, stack = []\<rparr> = 117901057
   \<and> verifyChecksum (\<lambda>d. [1, 0, 0, 0])
      \<lparr>data = [9, 1, 0, 0, 0], offset = 1, zeroCopy = False, stack = []\<rparr> =
      (Inr 1, \<lparr>data = [9, 1, 0, 0, 0], offset = 5, zeroCopy = False, stack = []\<rparr>)
   \<and> fromRaw (\<lambda>d. [1, 0, 0, 0]) [1, 2, 3] = Inl (AssertionError [])"
  using C10_checksum_without_mark[where h="\<lambda>d. d @ [7, 7, 7, 7]" and raw="[1, 2, 3]"
      and r="\<lparr>data = [1, 0, 0, 0, 1, 0, 0, 0], offset = 1, zeroCopy = False, stack = []\<rparr>"]
    C10_checksum_without_mark[where h="\<lambda>d. [1, 0, 0, 0]" and raw="[1, 2, 3]"
      and r="\<lparr>data = [9, 1, 0, 0, 0], offset = 1, zeroCopy = False, stack = []\<rparr>"]
  by (simp add: readUInt32LE_def)

section \<open>BufferWriter\<close>

lemma length_le_bytes: "length (le_bytes n v) = n"
  by (induction n arbitrary: v) auto

lemma length_be_bytes: "length (be_bytes n v) = n"
  by (simp add: be_bytes_def length_le_bytes)

lemma render_op_room:
  assumes "op_ok env op"
    and "is_seek op \<or> 0 \<le> off \<and> off + op_size env op \<le> int (length d)"
    and "int (length d) \<le> kMaxLength"
  shows "\<exists>d'. render_op env op (d, off) = Inr (d', off + op_size env op) \<and> length d' = length d"
proof (cases op)
  case (SEEK v)
  then show ?thesis by simp
next
  case (FIXED t v)
  with assms have "0 \<le> off" "off < 0x100000000"
    by (simp_all add: kMaxLength_def)
  then have "off mod 0x100000000 = off" by simp
  with FIXED show ?thesis by (simp add: buf_put_length Let_def)
next
  case (VARINT v)
  with assms have "length (fst (writeVarint_ext env d v off)) = length d"
    "snd (writeVarint_ext env d v off) = off + sizeVarint env v"
    by (simp_all add: varint_ok_def)
  with VARINT show ?thesis by (cases "writeVarint_ext env d v off") auto
next
  case (VARINT2 v)
  with assms have "length (fst (writeVarint2_ext env d v off)) = length d"
    "snd (writeVarint2_ext env d v off) = off + sizeVarint2 env v"
    by (simp_all add: varint2_ok_def)
  with VARINT2 show ?thesis by (cases "writeVarint2_ext env d v off") auto
next
  case (BYTES b)
  with assms have room: "0 \<le> off" "off + int (length b) \<le> int (length d)" by simp_all
  have "copied b d off = int (length b)"
  proof (cases "int (length d) \<le> off")
    case True
    with room have "length b = 0" by linarith
    with True show ?thesis by (simp add: copied_def)
  next
    case False
    with room show ?thesis by (simp add: copied_def)
  qed
  with BYTES room show ?thesis by (simp add: buf_put_length)
next
  case (OP_STR s enc)
  with assms have "length (fst (buffer_write env d s off enc)) = length d"
    "snd (buffer_write env d s off enc) = byteLength env s enc"
    by (simp_all add: string_ok_def)
  with OP_STR show ?thesis by (cases "buffer_write env d s off enc") auto
next
  case CHECKSUM
  with assms(1) have "4 \<le> length (writer_hash256 env (slice_to d off))" by (simp add: hash_ok_def)
  then have "length (take 4 (writer_hash256 env (slice_to d off))) = 4" by simp
  with CHECKSUM assms show ?thesis by (auto simp: buf_put_length copied_def Let_def)
next
  case (FILL v n)
  with assms show ?thesis by (auto simp: buf_put_length)
qed

lemma replay_inside:
  "\<forall>op\<in>set os. op_ok env op \<Longrightarrow> inside env os off (int (length d)) \<Longrightarrow>
   int (length d) \<le> kMaxLength \<Longrightarrow>
   \<exists>d'. replay env os (d, off) = Inr (d', off + sum_list (map (op_size env) os))
        \<and> length d' = length d"
proof (induction os arbitrary: d off)
  case Nil
  then show ?case by simp
next
  case (Cons op os)
  from Cons.prems have p: "op_ok env op"
    "is_seek op \<or> 0 \<le> off \<and> off + op_size env op \<le> int (length d)"
    by simp_all
  from render_op_room[OF p Cons.prems(3)] obtain d1 where
    d1: "render_op env op (d, off) = Inr (d1, off + op_size env op)" "length d1 = length d"
    by blast
  from Cons.prems d1 have "\<exists>d'. replay env os (d1, off + op_size env op) =
      Inr (d', off + op_size env op + sum_list (map (op_size env) os)) \<and> length d' = length d1"
    by (intro Cons.IH) auto
  with d1 show ?case by (auto simp: add.assoc)
qed

lemma inside_append:
  "inside env (a @ b) off n \<longleftrightarrow>
     inside env a off n \<and> inside env b (off + sum_list (map (op_size env) a)) n"
  by (induction a arbitrary: off) (auto simp: add.assoc)

lemma inside_nonneg:
  "\<forall>op\<in>set os. 0 \<le> op_size env op \<Longrightarrow> 0 \<le> off \<Longrightarrow>
   off + sum_list (map (op_size env) os) \<le> n \<Longrightarrow> inside env os off n"
proof (induction os arbitrary: off)
  case Nil
  then show ?case by simp
next
  case (Cons op os)
  have nn: "0 \<le> sum_list (map (op_size env) os)"
    using Cons.prems(1) by (intro sum_list_nonneg) auto
  from Cons.prems nn have "inside env os (off + op_size env op) n"
    by (intro Cons.IH) auto
  with Cons.prems nn show ?case by auto
qed

text \<open>
  What a call that does not throw queues: operations that account for what the call adds
  to the counter, written by outside functions that agree with their size functions, and
  of a size that is not negative unless the call is a seek backwards.
\<close>

lemma apply_call_ops:
  assumes "apply_call env c w = Inr w'" and "call_ok env c"
  shows "\<exists>new. ops w' = ops w @ new
           \<and> written w' = written w + sum_list (map (op_size env) new)
           \<and> (\<forall>op\<in>set new. op_ok env op
                \<and> (0 \<le> op_size env op \<or> (\<exists>off. c = Call_seek off \<and> off < 0)))"
proof -
  have wb: "\<exists>new. ops (writeBytes b x) = ops x @ new
           \<and> written (writeBytes b x) = written x + sum_list (map (op_size env) new)
           \<and> (\<forall>op\<in>set new. op_ok env op \<and> 0 \<le> op_size env op)" for b x
    by (simp add: writeBytes_def push_op_def add_written_def)
  have vb: "\<exists>new. ops (writeVarBytes env b x) = ops x @ new
           \<and> written (writeVarBytes env b x) = written x + sum_list (map (op_size env) new)
           \<and> (\<forall>op\<in>set new. op_ok env op \<and> 0 \<le> op_size env op)"
    if "varint_ok env (int (length b))" for b x
    using that
    by (cases "b = []") (auto simp: writeVarBytes_def push_op_def add_written_def Let_def varint_ok_def)
  have ws: "\<exists>new. ops (writeString env v enc x) = ops x @ new
           \<and> written (writeString env v enc x) = written x + sum_list (map (op_size env) new)
           \<and> (\<forall>op\<in>set new. op_ok env op \<and> 0 \<le> op_size env op)"
    if "value_ok env v enc" for v enc x
  proof (cases v)
    case (String s)
    with that show ?thesis
      by (simp add: writeString_def push_op_def add_written_def Let_def string_ok_def)
  next
    case (Buffer b)
    with wb[of b x] show ?thesis by (simp add: writeString_def)
  qed
  have wvs: "\<exists>new. ops (writeVarString env v enc x) = ops x @ new
           \<and> written (writeVarString env v enc x) = written x + sum_list (map (op_size env) new)
           \<and> (\<forall>op\<in>set new. op_ok env op \<and> 0 \<le> op_size env op)"
    if "value_ok env v enc" "varint_ok env (value_length env v enc)" for v enc x
  proof (cases v)
    case (String s)
    with that show ?thesis
      by (cases "s = []")
        (auto simp: writeVarString_def push_op_def add_written_def Let_def string_ok_def
          varint_ok_def)
  next
    case (Buffer b)
    with vb[of b x] that show ?thesis by (simp add: writeVarString_def)
  qed
  show ?thesis
  proof (cases c)
    case (Call_seek off)
    with assms show ?thesis by (auto simp: seek_def push_op_def add_written_def)
  next
    case (Call_writeFixed t v)
    with assms show ?thesis by (auto simp: writeFixed_def push_op_def add_written_def)
  next
    case (Call_writeVarint v)
    with assms show ?thesis
      by (auto simp: writeVarint_def push_op_def add_written_def varint_ok_def split: if_splits)
  next
    case (Call_writeVarint2 v)
    with assms show ?thesis
      by (auto simp: writeVarint2_def push_op_def add_written_def varint2_ok_def split: if_splits)
  next
    case (Call_writeBytes b)
    with assms wb[of b w] show ?thesis by auto
  next
    case (Call_writeVarBytes b)
    with assms vb[of b w] show ?thesis by auto
  next
    case (Call_writeString v enc)
    with assms ws[of v enc w] show ?thesis by auto
  next
    case (Call_writeHash v)
    with assms ws[of v "''hex''" w] show ?thesis by (auto simp: writeHash_def)
  next
    case (Call_writeVarString v enc)
    with assms wvs[of v enc w] show ?thesis by auto
  next
    case (Call_writeNullString v enc)
    from Call_writeNullString assms ws[of v enc w] obtain new where
      new: "ops (writeString env v enc w) = ops w @ new"
        "written (writeString env v enc w) = written w + sum_list (map (op_size env) new)"
        "\<forall>op\<in>set new. op_ok env op \<and> 0 \<le> op_size env op"
      by auto
    have "ops w' = ops w @ (new @ [FIXED UI8 0])"
      "written w' = written w + sum_list (map (op_size env) (new @ [FIXED UI8 0]))"
      "\<forall>op\<in>set (new @ [FIXED UI8 0]). op_ok env op \<and> 0 \<le> op_size env op"
      using Call_writeNullString assms(1) new
      by (auto simp: writeNullString_def writeU8_def writeFixed_def push_op_def add_written_def)
    then show ?thesis by blast
  next
    case Call_writeChecksum
    with assms show ?thesis by (auto simp: writeChecksum_def push_op_def add_written_def)
  next
    case (Call_fill v n)
    with assms show ?thesis
      by (auto simp: fill_def push_op_def add_written_def split: if_splits)
  qed
qed

lemma run_calls_ops:
  "run_calls env cs w = Inr w' \<Longrightarrow> list_all (call_ok env) cs \<Longrightarrow>
   \<exists>new. ops w' = ops w @ new
      \<and> written w' = written w + sum_list (map (op_size env) new)
      \<and> (\<forall>op\<in>set new. op_ok env op)
      \<and> ((\<forall>off. Call_seek off \<in> set cs \<longrightarrow> 0 \<le> off) \<longrightarrow> (\<forall>op\<in>set new. 0 \<le> op_size env op))"
proof (induction cs arbitrary: w)
  case Nil
  then show ?case by simp
next
  case (Cons c cs)
  from Cons.prems(1) obtain w1 where
    w1: "apply_call env c w = Inr w1" "run_calls env cs w1 = Inr w'"
    by (auto split: sum.splits)
  from Cons.prems(2) have ok: "call_ok env c" "list_all (call_ok env) cs" by simp_all
  from apply_call_ops[OF w1(1) ok(1)] obtain n1 where
    n1: "ops w1 = ops w @ n1" "written w1 = written w + sum_list (map (op_size env) n1)"
      "\<forall>op\<in>set n1. op_ok env op
          \<and> (0 \<le> op_size env op \<or> (\<exists>off. c = Call_seek off \<and> off < 0))"
    by blast
  from Cons.IH[OF w1(2) ok(2)] obtain n2 where
    n2: "ops w' = ops w1 @ n2" "written w' = written w1 + sum_list (map (op_size env) n2)"
      "\<forall>op\<in>set n2. op_ok env op"
      "(\<forall>off. Call_seek off \<in> set cs \<longrightarrow> 0 \<le> off) \<longrightarrow> (\<forall>op\<in>set n2. 0 \<le> op_size env op)"
    by blast
  have "ops w' = ops w @ (n1 @ n2)"
    "written w' = written w + sum_list (map (op_size env) (n1 @ n2))"
    "\<forall>op\<in>set (n1 @ n2). op_ok env op"
    using n1 n2 by auto
  moreover have "(\<forall>off. Call_seek off \<in> set (c # cs) \<longrightarrow> 0 \<le> off)
      \<longrightarrow> (\<forall>op\<in>set (n1 @ n2). 0 \<le> op_size env op)"
    using n1(3) n2(4) by fastforce
  ultimately show ?case by blast
qed

lemma run_calls_append:
  "run_calls env (a @ b) w =
     (case run_calls env a w of Inl e \<Rightarrow> Inl e | Inr w' \<Rightarrow> run_calls env b w')"
  by (induction a arbitrary: w) (auto split: sum.splits)

lemma accounted_render:
  assumes "accounted env w" and "in_bounds env w"
  shows "\<exists>d. render env w = Inr d \<and> int (length d) = written w
           \<and> replay env (ops w) (replicate (nat (written w)) 0, 0) = Inr (d, int (length d))"
proof -
  from assms(1) have ok: "\<forall>op\<in>set (ops w). op_ok env op"
    and wr: "written w = sum_list (map (op_size env) (ops w))"
    by (simp_all add: accounted_def)
  let ?d = "replicate (nat (written w)) (0::byte)"
  from assms(2) have len: "int (length ?d) = written w" by (simp add: in_bounds_def)
  from replay_inside[OF ok, of 0 ?d] assms(2) len obtain d where
    d: "replay env (ops w) (?d, 0) = Inr (d, 0 + sum_list (map (op_size env) (ops w)))"
       "length d = length ?d" by (auto simp: in_bounds_def)
  with wr assms(2) show ?thesis by (auto simp: render_def in_bounds_def)
qed

lemma run_calls_accounted:
  assumes "run_calls env cs newBufferWriter = Inr w" and "list_all (call_ok env) cs"
  shows "accounted env w"
    and "(\<forall>off. Call_seek off \<in> set cs \<longrightarrow> 0 \<le> off) \<Longrightarrow> \<forall>op\<in>set (ops w). 0 \<le> op_size env op"
  using run_calls_ops[OF assms] by (auto simp: accounted_def newBufferWriter_def)

lemma nonneg_in_bounds:
  assumes "accounted env w" and "\<forall>op\<in>set (ops w). 0 \<le> op_size env op"
    and "written w \<le> kMaxLength"
  shows "in_bounds env w"
proof -
  from assms(1) have wr: "written w = sum_list (map (op_size env) (ops w))"
    by (simp add: accounted_def)
  have "0 \<le> sum_list (map (op_size env) (ops w))"
    using assms(2) by (intro sum_list_nonneg) auto
  with wr assms(3) inside_nonneg[OF assms(2), of 0 "written w"] show ?thesis
    by (simp add: in_bounds_def)
qed

lemma toy_varint_ok: "varint_ok toy_writer_env v"
  by (simp add: varint_ok_def toy_writer_env_def buf_put_length)

lemma toy_varint2_ok: "varint2_ok toy_writer_env v"
  by (simp add: varint2_ok_def toy_writer_env_def buf_put_length)

lemma toy_string_ok: "string_ok toy_writer_env s enc"
  by (simp add: string_ok_def toy_writer_env_def buf_put_length)

lemma toy_hash_ok: "hash_ok toy_writer_env"
  by (auto simp: hash_ok_def toy_writer_env_def min_def)

text \<open>
  C9 (as stated, refuted): the claim is made for every sequence of operations. \<open>seek\<close>
  takes any relative offset: after \<open>writeBytes\<close> of two bytes and \<open>seek(-2)\<close> the running
  counter is 0, the replay of the two operations on the buffer of 0 bytes ends at the
  offset \<open>-2\<close>, and \<open>render\<close> fails its final assertion.
\<close>

theorem C9_negative_seek:
  "run_calls toy_writer_env [Call_writeBytes [1, 2], Call_seek (- 2)] newBufferWriter =
     Inr \<lparr>ops = [BYTES [1, 2], SEEK (- 2)], written = 0\<rparr>
   \<and> replay toy_writer_env [BYTES [1, 2], SEEK (- 2)] ([], 0) = Inr ([], - 2)
   \<and> render toy_writer_env \<lparr>ops = [BYTES [1, 2], SEEK (- 2)], written = 0\<rparr> =
     Inl (AssertionError [])"
  by (simp add: newBufferWriter_def writeBytes_def seek_def push_op_def add_written_def
      render_def buf_put_def copied_def kMaxLength_def)

text \<open>
  C9 (amended): take a sequence of writer calls that run without throwing, where for
  every varint and string written the outside size function (\<open>encoding.sizeVarint\<close>,
  \<open>encoding.sizeVarint2\<close>, \<open>Buffer.byteLength\<close>) gives the number of bytes that the
  matching write (\<open>encoding.writeVarint\<close>, \<open>encoding.writeVarint2\<close>, \<open>data.write\<close>)
  produces, and a hash has at least four bytes (\<open>call_ok\<close>). If the final counter is
  between 0 and the largest size of a buffer and every queued write lies inside the final
  buffer (\<open>in_bounds\<close>), then \<open>render\<close> allocates \<open>written\<close> bytes, replays the queued
  operations in order, each at the sum of the sizes of the operations before it, ends at
  the offset that is the length of the buffer, and returns a buffer of \<open>written\<close> bytes.
  If no seek offset is negative and the final counter is at most the largest size of a
  buffer, the sequence is within these bounds and so is every prefix of it: the running
  counter is the rendered length at every intermediate point.
\<close>

theorem C9_render_size:
  assumes "run_calls env cs newBufferWriter = Inr w" and "list_all (call_ok env) cs"
  shows "(in_bounds env w \<longrightarrow>
            (\<exists>d. render env w = Inr d \<and> int (length d) = written w
               \<and> replay env (ops w) (replicate (nat (written w)) 0, 0) = Inr (d, int (length d)))
          \<and> (\<forall>k\<le>length (ops w). \<exists>dk.
               replay env (take k (ops w)) (replicate (nat (written w)) 0, 0) =
                 Inr (dk, sum_list (map (op_size env) (take k (ops w))))))
       \<and> ((\<forall>off. Call_seek off \<in> set cs \<longrightarrow> 0 \<le> off) \<and> written w \<le> kMaxLength \<longrightarrow>
            in_bounds env w
          \<and> (\<forall>n\<le>length cs. \<exists>w' d'. run_calls env (take n cs) newBufferWriter = Inr w'
               \<and> written w' \<le> written w
               \<and> render env w' = Inr d' \<and> int (length d') = written w'))"
proof (intro conjI impI allI)
  note aw = run_calls_accounted(1)[OF assms]
  {
    assume ib: "in_bounds env w"
    from accounted_render[OF aw ib]
    show "\<exists>d. render env w = Inr d \<and> int (length d) = written w
            \<and> replay env (ops w) (replicate (nat (written w)) 0, 0) = Inr (d, int (length d))" .
    fix k assume "k \<le> length (ops w)"
    let ?d = "replicate (nat (written w)) (0::byte)"
    from aw have ok: "\<forall>op\<in>set (take k (ops w)). op_ok env op"
      by (auto simp: accounted_def dest: in_set_takeD)
    from ib have len: "int (length ?d) = written w" "int (length ?d) \<le> kMaxLength"
      by (simp_all add: in_bounds_def)
    from ib have "inside env (take k (ops w) @ drop k (ops w)) 0 (written w)"
      by (simp add: in_bounds_def)
    then have "inside env (take k (ops w)) 0 (int (length ?d))"
      unfolding inside_append len by simp
    from replay_inside[OF ok this len(2)]
    show "\<exists>dk. replay env (take k (ops w)) (?d, 0) =
              Inr (dk, sum_list (map (op_size env) (take k (ops w))))" by auto
  }
  {
    assume h: "(\<forall>off. Call_seek off \<in> set cs \<longrightarrow> 0 \<le> off) \<and> written w \<le> kMaxLength"
    from run_calls_accounted(2)[OF assms] h have nn: "\<forall>op\<in>set (ops w). 0 \<le> op_size env op"
      by simp
    from nonneg_in_bounds[OF aw nn] h show "in_bounds env w" by simp
    fix n assume "n \<le> length cs"
    have split: "run_calls env (take n cs @ drop n cs) newBufferWriter = Inr w"
      using assms(1) by simp
    then obtain w' where w': "run_calls env (take n cs) newBufferWriter = Inr w'"
      "run_calls env (drop n cs) w' = Inr w"
      unfolding run_calls_append by (auto split: sum.splits)
    have okt: "list_all (call_ok env) (take n cs)" "list_all (call_ok env) (drop n cs)"
      using assms(2) by (auto simp: list_all_iff dest: in_set_takeD in_set_dropD)
    have st: "\<forall>off. Call_seek off \<in> set (take n cs) \<longrightarrow> 0 \<le> off"
      "\<forall>off. Call_seek off \<in> set (drop n cs) \<longrightarrow> 0 \<le> off"
      using h by (auto dest: in_set_takeD in_set_dropD)
    from run_calls_ops[OF w'(2) okt(2)] st(2) obtain new where
      "written w = written w' + sum_list (map (op_size env) new)"
      "\<forall>op\<in>set new. 0 \<le> op_size env op" by auto
    moreover from this(2) have "0 \<le> sum_list (map (op_size env) new)"
      by (intro sum_list_nonneg) auto
    ultimately have le: "written w' \<le> written w" by simp
    note aw' = run_calls_accounted(1)[OF w'(1) okt(1)]
    from run_calls_accounted(2)[OF w'(1) okt(1)] st(1)
    have nn': "\<forall>op\<in>set (ops w'). 0 \<le> op_size env op" by simp
    from le h have "written w' \<le> kMaxLength" by simp
    from accounted_render[OF aw' nonneg_in_bounds[OF aw' nn' this]] w'(1) le
    show "\<exists>w' d'. run_calls env (take n cs) newBufferWriter = Inr w'
            \<and> written w' \<le> written w
            \<and> render env w' = Inr d' \<and> int (length d') = written w'" by auto
  }
qed

theorem C9_render_size_witness:
  "(\<exists>d. render toy_writer_env
          \<lparr>ops = [FIXED UI32BE 0, BYTES [1, 2, 3], SEEK (- 7), FIXED UI32BE 3, SEEK 3,
                  VARINT 2, OP_STR ''ab'' ''ascii'', CHECKSUM], written = 14\<rparr> = Inr d
      \<and> int (length d) = 14)
   \<and> (\<exists>w' d'. run_calls toy_writer_env
          (take 2 [Call_writeFixed UI32BE 258, Call_seek 2, Call_writeVarBytes [1, 2, 3],
                   Call_writeChecksum]) newBufferWriter = Inr w'
      \<and> render toy_writer_env w' = Inr d' \<and> int (length d') = written w')"
proof -
  have a: "run_calls toy_writer_env
      [Call_writeFixed UI32BE 0, Call_writeBytes [1, 2, 3], Call_seek (- 7),
       Call_writeFixed UI32BE 3, Call_seek 3,
       Call_writeVarString (String ''ab'') ''ascii'', Call_writeChecksum] newBufferWriter =
     Inr \<lparr>ops = [FIXED UI32BE 0, BYTES [1, 2, 3], SEEK (- 7), FIXED UI32BE 3, SEEK 3,
                  VARINT 2, OP_STR ''ab'' ''ascii'', CHECKSUM], written = 14\<rparr>"
    by code_simp
  have b: "list_all (call_ok toy_writer_env)
      [Call_writeFixed UI32BE 0, Call_writeBytes [1, 2, 3], Call_seek (- 7),
       Call_writeFixed UI32BE 3, Call_seek 3,
       Call_writeVarString (String ''ab'') ''ascii'', Call_writeChecksum]"
    by (simp add: toy_varint_ok toy_string_ok toy_hash_ok)
  have c: "in_bounds toy_writer_env
      \<lparr>ops = [FIXED UI32BE 0, BYTES [1, 2, 3], SEEK (- 7), FIXED UI32BE 3, SEEK 3,
                  VARINT 2, OP_STR ''ab'' ''ascii'', CHECKSUM], written = 14\<rparr>"
    by (simp add: in_bounds_def kMaxLength_def toy_writer_env_def std_varint_bytes_def)
  have a2: "run_calls toy_writer_env
      [Call_writeFixed UI32BE 258, Call_seek 2, Call_writeVarBytes [1, 2, 3],
       Call_writeChecksum] newBufferWriter =
     Inr \<lparr>ops = [FIXED UI32BE 258, SEEK 2, VARINT 3, BYTES [1, 2, 3], CHECKSUM],
          written = 14\<rparr>"
    by code_simp
  have b2: "list_all (call_ok toy_writer_env)
      [Call_writeFixed UI32BE 258, Call_seek 2, Call_writeVarBytes [1, 2, 3],
       Call_writeChecksum]"
    by (simp add: toy_varint_ok toy_hash_ok)
  from C9_render_size[OF a b] c
  have first: "\<exists>d. render toy_writer_env
          \<lparr>ops = [FIXED UI32BE 0, BYTES [1, 2, 3], SEEK (- 7), FIXED UI32BE 3, SEEK 3,
                  VARINT 2, OP_STR ''ab'' ''ascii'', CHECKSUM], written = 14\<rparr> = Inr d
      \<and> int (length d) = 14"
    by auto
  have "(\<forall>off. Call_seek off \<in> set [Call_writeFixed UI32BE 258, Call_seek 2,
          Call_writeVarBytes [1, 2, 3], Call_writeChecksum] \<longrightarrow> 0 \<le> off)
      \<and> written \<lparr>ops = [FIXED UI32BE 258, SEEK 2, VARINT 3, BYTES [1, 2, 3], CHECKSUM],
          written = 14\<rparr> \<le> kMaxLength"
    by (simp add: kMaxLength_def)
  with C9_render_size[OF a2 b2]
  have "\<forall>n\<le>length [Call_writeFixed UI32BE 258, Call_seek 2,
          Call_writeVarBytes [1, 2, 3], Call_writeChecksum].
        \<exists>w' d'. run_calls toy_writer_env
          (take n [Call_writeFixed UI32BE 258, Call_seek 2, Call_writeVarBytes [1, 2, 3],
                   Call_writeChecksum]) newBufferWriter = Inr w'
      \<and> written w' \<le> written \<lparr>ops = [FIXED UI32BE 258, SEEK 2, VARINT 3, BYTES [1, 2, 3], CHECKSUM],
          written = 14\<rparr>
      \<and> render toy_writer_env w' = Inr d' \<and> int (length d') = written w'"
    by blast
  from this[rule_format, of 2] first show ?thesis by auto
qed

section \<open>HD public keys\<close>



lemma parse_parts_range:
  "parse_parts ps mx = Inr is \<Longrightarrow> \<forall>i\<in>set is. 0 \<le> i \<and> i < mx"
  by (induction ps arbitrary: "is") (auto simp: Let_def split: if_splits sum.splits)

text \<open>
  With a number as index, \<open>derive\<close> does what its documentation says (``throws if
  true'', ``throws on hardened''): it throws ``Index out of range.'' and leaves the cache
  as it is whenever \<open>hardened\<close> is true or the index is at or above the hardened threshold.
  With a path as index, \<open>derive\<close> hands over to \<open>derivePath\<close> before it looks at
  \<open>hardened\<close>: the result is that of the call without the flag, and the path is parsed
  with the threshold as its bound.
\<close>

lemma derive_hardened_number:
  "hardened \<or> HARDENED \<le> i \<Longrightarrow>
   derive env key (IndexNumber i) hardened cache = (Inl (Error ''Index out of range.''), cache)"
  by (auto simp: derive_def derive_number.simps[of env key i])

lemma derive_path_flag:
  "derive env key (IndexPath path) hardened cache = derive env key (IndexPath path) False cache
   \<and> (\<forall>is. parsePath path HARDENED = Inr is \<longrightarrow>
        derive env key (IndexPath path) hardened cache = derive_indexes env key is cache
        \<and> (\<forall>j\<in>set is. 0 \<le> j \<and> j < HARDENED))
   \<and> (\<forall>e. parsePath path HARDENED = Inl e \<longrightarrow>
        derive env key (IndexPath path) hardened cache = (Inl e, cache))"
  by (auto simp: derive_def derivePath_def parsePath_def
      dest: parse_parts_range split: list.splits if_splits)

text \<open>
  C7 (the code at the failing input): the claim, as the documentation of \<open>derive\<close>, has
  every call with \<open>hardened\<close> set to true throw. With the path \<open>m/0\<close> as index and
  \<open>hardened\<close> true, \<open>derive\<close> on a public key returns the child of index 0, the one that
  the call without the flag returns, where the call with the number 0 and the flag throws.
\<close>

theorem C7_hardened_path_returns_child:
  "fst (derive toy_hd ex_key (IndexPath ''m/0'') True []) =
     Inr \<lparr>network = ''main'', depth = 1, parentFingerPrint = [2, 9, 9, 9], childIndex = 0,
          chainCode = [9, 9, 9, 9, 2] @ replicate 27 5,
          publicKey = [0, 0, 0, 0] @ replicate 28 9 @ [2],
          fingerPrint = None\<rparr>
   \<and> derive toy_hd ex_key (IndexPath ''m/0'') True [] =
       derive toy_hd ex_key (IndexPath ''m/0'') False []
   \<and> fst (derive toy_hd ex_key (IndexNumber 0) True []) = Inl (Error ''Index out of range.'')"
  by code_simp



section \<open>BIP151\<close>

lemma nat_int_sub: "nat (int i - int k) = i - k"
  by arith

lemma seed_first:
  "length sd = 32 \<Longrightarrow> length a = 32 \<Longrightarrow> buf_put (buf_put (replicate 64 0) 0 sd) 32 a = sd @ a"
  by (auto simp: buf_put_def list_eq_iff_nth_eq nth_append nat_int_sub[of _ 32, simplified])

lemma seed_second:
  "length sd = 32 \<Longrightarrow> length a = 32 \<Longrightarrow> length b = 32 \<Longrightarrow> buf_put (sd @ a) 32 b = sd @ b"
  by (auto simp: buf_put_def list_eq_iff_nth_eq nth_append nat_int_sub[of _ 32, simplified])

lemma toy_sha256_replicate:
  "toy_sha256 (replicate 32 x @ replicate 32 y) = replicate 32 (35 * y + 32 * x + 1)"
  "toy_sha256 (replicate 32 x) = replicate 32 (35 * x + 1)"
  by (simp_all add: toy_sha256_def sum_list_replicate algebra_simps)

text \<open>
  C1 (as stated, refuted): the claim has the new keys be the SHA256 of the session id
  followed by the old key. \<open>rekey\<close> calls \<open>crypto.hash256\<close>, not \<open>crypto.sha256\<close>: where
  the two differ, as they do for SHA-256 and the double SHA-256, the new keys are not the
  \<open>sha256\<close> of the seed. On the example stream, with the digest of the examples and
  \<open>hash256\<close> its double application, the new keys are 32 bytes of 54 and of 255, while
  the \<open>sha256\<close> of the two seeds are 32 bytes of 199 and of 234.
\<close>

theorem C1_rekey_not_sha256:
  "rekey toy_crypto None None ex_stream =
     Inr (ex_stream\<lparr>k1 := Some (replicate 32 54), k2 := Some (replicate 32 255)\<rparr>)
   \<and> sha256 toy_crypto (replicate 32 4 @ replicate 32 2) = replicate 32 199
   \<and> sha256 toy_crypto (replicate 32 4 @ replicate 32 3) = replicate 32 234
   \<and> hash256 toy_crypto (replicate 32 4 @ replicate 32 2) = replicate 32 54
   \<and> hash256 toy_crypto (replicate 32 4 @ replicate 32 3) = replicate 32 255"
  by (simp add: rekey_def ex_stream_def toy_crypto_def Let_def seed_first seed_second
      toy_sha256_replicate)

text \<open>
  C1 (amended): on an initialised stream (\<open>prk\<close> set; session id and both keys of 32
  bytes, as \<open>init\<close> derives them), \<open>rekey()\<close> without replacement keys sets the
  stream-cipher key to \<open>crypto.hash256\<close> of the session id followed by the old
  stream-cipher key, the AEAD key to \<open>crypto.hash256\<close> of the session id followed by the
  old AEAD key, keeps the session id, the sequence number and the nonce, and initialises
  both ciphers with the new keys and that nonce. Where \<open>crypto.hash256\<close> is the double
  SHA-256, the new keys are the SHA-256 of the SHA-256 of these seeds.
\<close>

theorem C1_rekey:
  assumes "prk s \<noteq> None" and "sid s = Some sd" and "k1 s = Some a" and "k2 s = Some b"
    and "length sd = 32" and "length a = 32" and "length b = 32"
  shows "\<exists>s'. rekey cr None None s = Inr s'
           \<and> k1 s' = Some (hash256 cr (sd @ a))
           \<and> k2 s' = Some (hash256 cr (sd @ b))
           \<and> sid s' = sid s
           \<and> seq s' = seq s
           \<and> iv s' = iv s
           \<and> chacha s' = chacha_init cr (chacha s) (k1 s') (iv s)
           \<and> aead s' = aead_init cr (aead s) (k2 s') (iv s)
           \<and> (hash256 cr = (\<lambda>d. sha256 cr (sha256 cr d)) \<longrightarrow>
                k1 s' = Some (sha256 cr (sha256 cr (sd @ a)))
              \<and> k2 s' = Some (sha256 cr (sha256 cr (sd @ b))))"
  using assms by (simp add: rekey_def Let_def seed_first seed_second)

theorem C1_rekey_witness:
  "\<exists>s'. rekey toy_crypto None None ex_stream = Inr s'
           \<and> k1 s' = Some (replicate 32 54)
           \<and> k2 s' = Some (replicate 32 255)
           \<and> k1 s' = Some (sha256 toy_crypto (sha256 toy_crypto (replicate 32 4 @ replicate 32 2)))
           \<and> k2 s' = Some (sha256 toy_crypto (sha256 toy_crypto (replicate 32 4 @ replicate 32 3)))
           \<and> sid s' = Some (replicate 32 4)
           \<and> seq s' = 7
           \<and> iv s' = [7, 0, 0, 0, 0, 0, 0, 0]"
proof -
  have h: "hash256 toy_crypto = (\<lambda>d. sha256 toy_crypto (sha256 toy_crypto d))"
    by (simp add: toy_crypto_def)
  have v: "hash256 toy_crypto (replicate 32 4 @ replicate 32 2) = replicate 32 54"
    "hash256 toy_crypto (replicate 32 4 @ replicate 32 3) = replicate 32 255"
    by (simp_all add: toy_crypto_def toy_sha256_replicate)
  have p: "prk ex_stream \<noteq> None" "sid ex_stream = Some (replicate 32 4)"
    "k1 ex_stream = Some (replicate 32 2)" "k2 ex_stream = Some (replicate 32 3)"
    "length (replicate 32 (4::byte)) = 32" "length (replicate 32 (2::byte)) = 32"
    "length (replicate 32 (3::byte)) = 32"
    "seq ex_stream = 7" "iv ex_stream = [7, 0, 0, 0, 0, 0, 0, 0]"
    by (simp_all add: ex_stream_def)
  from C1_rekey[OF p(1-7), of toy_crypto] obtain s' where
    s': "rekey toy_crypto None None ex_stream = Inr s'"
      "k1 s' = Some (hash256 toy_crypto (replicate 32 4 @ replicate 32 2))"
      "k2 s' = Some (hash256 toy_crypto (replicate 32 4 @ replicate 32 3))"
      "sid s' = sid ex_stream" "seq s' = seq ex_stream" "iv s' = iv ex_stream"
      "hash256 toy_crypto = (\<lambda>d. sha256 toy_crypto (sha256 toy_crypto d)) \<longrightarrow>
         k1 s' = Some (sha256 toy_crypto (sha256 toy_crypto (replicate 32 4 @ replicate 32 2)))
       \<and> k2 s' = Some (sha256 toy_crypto (sha256 toy_crypto (replicate 32 4 @ replicate 32 3)))"
    by blast
  from s'(7) h have
    "k1 s' = Some (sha256 toy_crypto (sha256 toy_crypto (replicate 32 4 @ replicate 32 2)))"
    "k2 s' = Some (sha256 toy_crypto (sha256 toy_crypto (replicate 32 4 @ replicate 32 3)))"
    by blast+
  with s'(1-6) v p(2,8,9) show ?thesis by (intro exI[of _ s']) simp
qed

text \<open>
  C2: when \<open>parse\<close> is given a body and tag frame (\<open>hasSize\<close> is set, \<open>waiting\<close> is the
  size of the body plus 16) and the tag does not verify against the MAC computed over the
  body, it emits the bad-tag error and nothing else (no packet event), throws nothing,
  advances the sequence number of the input stream by one (wrapping at \<open>2^32\<close>) and
  returns to waiting for a four-byte size prefix.
\<close>

theorem C2_bad_tag:
  assumes "hasSize s" and "16 \<le> waiting s"
    and "payload = buf_slice d 0 (waiting s - 16)"
    and "tg = buf_slice d (waiting s - 16) (waiting s)"
    and "\<not> verify cr tg (snd (finish cr (auth cr payload (input s))))"
  shows "\<exists>s'. parse cr rv dec d s = (s', [BadTag tg], None)
           \<and> seq (input s') = (if seq (input s) + 1 = 0x100000000 then 0 else seq (input s) + 1)
           \<and> \<not> hasSize s' \<and> waiting s' = 4"
  using assms
  by (auto simp: parse_def Let_def sequence_def update_def finish_def auth_def split: prod.splits)

theorem C2_bad_tag_witness:
  "\<exists>s'. parse toy_crypto std_readVarint latin1_decode (replicate 22 0)
            (ex_session\<lparr>hasSize := True, waiting := 22\<rparr>) = (s', [BadTag (replicate 16 0)], None)
         \<and> seq (input s') = 8 \<and> \<not> hasSize s' \<and> waiting s' = 4"
  using C2_bad_tag[where s="ex_session\<lparr>hasSize := True, waiting := 22\<rparr>" and d="replicate 22 0"
      and cr=toy_crypto and payload="replicate 6 0" and tg="replicate 16 0"
      and rv=std_readVarint and dec=latin1_decode]
  by (simp add: ex_session_def ex_stream_def toy_crypto_def buf_slice_def verify_def finish_def
      auth_def)


lemma read_loop_flat:
  "n \<le> length (concat ps) \<Longrightarrow>
   \<exists>q. read_loop acc n ps = Inr (acc @ take n (concat ps), q) \<and> concat q = drop n (concat ps)"
proof (induction acc n ps rule: read_loop.induct)
  case (1 acc ps)
  then show ?case by simp
next
  case (2 acc n)
  then show ?case by simp
next
  case (3 acc n p ps)
  show ?case
  proof (cases "length p \<le> Suc n")
    case True
    with 3 obtain q where "read_loop (acc @ p) (Suc n - length p) ps =
        Inr ((acc @ p) @ take (Suc n - length p) (concat ps), q)"
      and "concat q = drop (Suc n - length p) (concat ps)"
      by fastforce
    with True show ?thesis by simp
  next
    case False
    then show ?thesis by simp
  qed
qed

lemma read_flat:
  assumes "n \<le> total s" and "total s = length (concat (pending s))"
  shows "\<exists>q. read n s = Inr (take n (concat (pending s)), s\<lparr>pending := q, total := total s - n\<rparr>)
           \<and> concat q = drop n (concat (pending s))"
proof (cases "n = 0")
  case True
  then show ?thesis by (auto simp: read_def intro!: exI[of _ "pending s"])
next
  case False
  show ?thesis
  proof (cases "pending s")
    case Nil
    with assms False show ?thesis by simp
  next
    case (Cons p ps)
    consider "n < length p" | "length p = n" | "length p < n" by linarith
    then show ?thesis
    proof cases
      case 1
      with Cons False assms show ?thesis
        by (auto simp: read_def intro!: exI[of _ "drop n p # ps"])
    next
      case 2
      with Cons False assms show ?thesis
        by (auto simp: read_def intro!: exI[of _ "ps"])
    next
      case 3
      from assms have "n \<le> length (concat (pending s))" by simp
      from read_loop_flat[OF this, of "[]"] obtain q where
        q: "read_loop [] n (pending s) = Inr (take n (concat (pending s)), q)"
           "concat q = drop n (concat (pending s))" by auto
      have "length (take n (concat (pending s))) = n" using assms by simp
      with 3 Cons False assms q show ?thesis
        by (auto simp: read_def intro!: exI[of _ q])
    qed
  qed
qed

lemma parse_packets_no_throw:
  "offset br \<le> length (data br) \<Longrightarrow> snd (parse_packets rv dec br) = None"
proof (induction rv dec br rule: parse_packets.induct)
  case (1 rv dec br)
  show ?case
  proof (cases "length (data br) - offset br = 0")
    case True
    with 1 show ?thesis by (simp add: left_def parse_packets.simps[of rv dec br])
  next
    case False
    show ?thesis
    proof (cases "read_message rv dec br")
      case (Pair res br')
      show ?thesis
      proof (cases res)
        case (Inl e)
        with Pair False 1 show ?thesis by (simp add: left_def parse_packets.simps[of rv dec br])
      next
        case (Inr cb)
        obtain cmd body where cb: "cb = (cmd, body)" by (cases cb)
        from Pair Inr cb have rm: "read_message rv dec br = (Inr (cmd, body), br')" by simp
        from read_message_progress[OF rm] have "offset br' \<le> length (data br')" by blast
        with "1.IH"[of "Inr (length (data br) - offset br)" br "length (data br) - offset br" "Inr (cmd, body)" br' "(cmd, body)" cmd body]
          False 1 rm
        have "snd (parse_packets rv dec br') = None" by (simp add: left_def)
        with rm False 1 show ?thesis by (auto simp: left_def parse_packets.simps[of rv dec br] split: prod.splits)
      qed
    qed
  qed
qed

lemma parse_packets_fresh: "parse_packets rv dec (newBufferReader x) = (evs, t) \<Longrightarrow> t = None"
  using parse_packets_no_throw[of "newBufferReader x" rv dec]
  by (simp add: newBufferReader_def)

lemma parse_no_throw: "parse cr rv dec d s = (s', evs, t) \<Longrightarrow> t = None"
  by (auto simp: parse_def Let_def dest: parse_packets_fresh split: if_splits prod.splits)

lemma parse_frame:
  "parse cr rv dec d (s\<lparr>pending := p, total := n\<rparr>) =
     (case parse cr rv dec d s of (s', evs, t) \<Rightarrow> (s'\<lparr>pending := p, total := n\<rparr>, evs, t))"
  by (simp add: parse_def Let_def split: prod.splits)

lemma parse_fields:
  "parse cr rv dec d s = (s', evs, t) \<Longrightarrow>
     0 < waiting s' \<and> pending s' = pending s \<and> total s' = total s \<and>
     (if hasSize s' then 16 \<le> waiting s' else waiting s' = 4)"
  by (auto simp: parse_def Let_def split: if_splits prod.splits)

lemma flat_eqD:
  "flat s' = flat s \<Longrightarrow> s' = s\<lparr>pending := pending s'\<rparr> \<and> concat (pending s') = concat (pending s)"
  by (cases s, cases s') (auto simp: flat_def)

lemma flat_eqI:
  "concat p = concat (pending s) \<Longrightarrow> flat (s\<lparr>pending := p\<rparr>) = flat s"
  by (simp add: flat_def)

lemma feed_loop_stop:
  "\<not> (waiting s \<le> total s \<and> 0 < waiting s) \<Longrightarrow> feed_loop cr rv dec s = (s, [], None)"
  by (subst feed_loop.simps) auto

lemma feed_loop_step:
  assumes "waiting s \<le> total s" and "0 < waiting s"
    and "read (waiting s) s = Inr (c, s1)" and "parse cr rv dec c s1 = (s2, evs, t)"
  shows "feed_loop cr rv dec s =
           (case feed_loop cr rv dec s2 of (s3, evs', t') \<Rightarrow> (s3, evs @ evs', t'))"
proof -
  from assms(4) have "t = None" by (rule parse_no_throw)
  with assms show ?thesis by (subst feed_loop.simps) simp
qed

lemma feed_loop_flat:
  assumes "total s = length (concat (pending s))" and "flat s' = flat s"
  shows "(case feed_loop cr rv dec s' of (a, b) \<Rightarrow> (flat a, b)) =
         (case feed_loop cr rv dec s of (a, b) \<Rightarrow> (flat a, b))"
  using assms
proof (induction cr rv dec s arbitrary: s' rule: feed_loop.induct)
  case (1 cr rv dec s)
  from flat_eqD[OF "1.prems"(2)]
  have s': "s' = s\<lparr>pending := pending s'\<rparr>" and cc: "concat (pending s') = concat (pending s)"
    by blast+
  have w: "waiting s' = waiting s" and t: "total s' = total s"
    by (subst s', simp)+
  show ?case
  proof (cases "waiting s \<le> total s \<and> 0 < waiting s")
    case False
    with w t have "feed_loop cr rv dec s = (s, [], None)" "feed_loop cr rv dec s' = (s', [], None)"
      by (simp_all add: feed_loop_stop)
    with "1.prems"(2) show ?thesis by simp
  next
    case True
    let ?n = "waiting s"
    let ?c = "take ?n (concat (pending s))"
    from True "1.prems"(1) read_flat[of ?n s] obtain q where
      rq: "read ?n s = Inr (?c, s\<lparr>pending := q, total := total s - ?n\<rparr>)"
      and cq: "concat q = drop ?n (concat (pending s))" by auto
    from True "1.prems"(1) w t cc read_flat[of ?n s'] obtain q' where
      rq0: "read ?n s' = Inr (?c, s'\<lparr>pending := q', total := total s - ?n\<rparr>)"
      and cq': "concat q' = drop ?n (concat (pending s))" by auto
    have "s'\<lparr>pending := q', total := total s - ?n\<rparr> = s\<lparr>pending := q', total := total s - ?n\<rparr>"
      by (subst s') simp
    with rq0 have rq': "read ?n s' = Inr (?c, s\<lparr>pending := q', total := total s - ?n\<rparr>)" by simp
    obtain s2 evs tt where p: "parse cr rv dec ?c (s\<lparr>pending := q, total := total s - ?n\<rparr>) = (s2, evs, tt)"
      by (metis prod_cases3)
    from parse_no_throw[OF p] have tt: "tt = None" .
    from parse_frame[where cr=cr and rv=rv and dec=dec and d="?c" and s="s\<lparr>pending := q, total := total s - ?n\<rparr>" and p=q' and n="total s - ?n"] p
    have p': "parse cr rv dec ?c (s\<lparr>pending := q', total := total s - ?n\<rparr>) =
               (s2\<lparr>pending := q', total := total s - ?n\<rparr>, evs, tt)" by simp
    from parse_fields[OF p] have f2: "pending s2 = q" "total s2 = total s - ?n" by simp_all
    then have s2': "s2\<lparr>pending := q', total := total s - ?n\<rparr> = s2\<lparr>pending := q'\<rparr>"
      by (cases s2) simp
    from f2 cq "1.prems"(1) have inv2: "total s2 = length (concat (pending s2))" by simp
    from f2 cq cq' have fl: "flat (s2\<lparr>pending := q'\<rparr>) = flat s2" by (simp add: flat_eqI)
    from "1.IH"[OF True rq refl p[symmetric] refl tt inv2 fl]
    have IH: "(case feed_loop cr rv dec (s2\<lparr>pending := q'\<rparr>) of (a, b) \<Rightarrow> (flat a, b)) =
              (case feed_loop cr rv dec s2 of (a, b) \<Rightarrow> (flat a, b))" .
    from True w t have T': "waiting s' \<le> total s'" "0 < waiting s'" by simp_all
    from feed_loop_step[OF _ _ rq p] True
    have e1: "feed_loop cr rv dec s =
           (case feed_loop cr rv dec s2 of (s3, evs', t') \<Rightarrow> (s3, evs @ evs', t'))" by simp
    from rq' w have rq'': "read (waiting s') s' = Inr (?c, s\<lparr>pending := q', total := total s - ?n\<rparr>)"
      by simp
    from feed_loop_step[OF T' rq'' p'[unfolded s2']]
    have e2: "feed_loop cr rv dec s' =
           (case feed_loop cr rv dec (s2\<lparr>pending := q'\<rparr>) of (s3, evs', t') \<Rightarrow> (s3, evs @ evs', t'))" .
    from IH show ?thesis unfolding e1 e2 by (auto split: prod.splits)
  qed
qed

lemma quiescent_wf: "quiescent s \<longleftrightarrow> wf s \<and> total s < waiting s"
  by (simp add: quiescent_def)

lemma wf_waiting: "wf s \<Longrightarrow> 0 < waiting s"
  by (auto simp: wf_def split: if_splits)

lemma wf_push: "wf s \<Longrightarrow> wf (push e s)"
  by (auto simp: wf_def push_def)

lemma feed_loop_inv:
  assumes "wf s" and "feed_loop cr rv dec s = (s', evs, t)"
  shows "t = None \<and> quiescent s'"
  using assms
proof (induction cr rv dec s arbitrary: s' evs t rule: feed_loop.induct)
  case (1 cr rv dec s)
  show ?case
  proof (cases "waiting s \<le> total s \<and> 0 < waiting s")
    case False
    with "1.prems" wf_waiting[of s] show ?thesis
      by (auto simp: feed_loop_stop quiescent_wf)
  next
    case True
    let ?n = "waiting s"
    let ?c = "take ?n (concat (pending s))"
    from "1.prems"(1) have inv: "total s = length (concat (pending s))" by (simp add: wf_def)
    from True inv read_flat[of ?n s] obtain q where
      rq: "read ?n s = Inr (?c, s\<lparr>pending := q, total := total s - ?n\<rparr>)"
      and cq: "concat q = drop ?n (concat (pending s))" by auto
    obtain s2 evs2 tt where p: "parse cr rv dec ?c (s\<lparr>pending := q, total := total s - ?n\<rparr>) = (s2, evs2, tt)"
      by (metis prod_cases3)
    from parse_no_throw[OF p] have tt: "tt = None" .
    from parse_fields[OF p] cq inv have wf2: "wf s2" by (auto simp: wf_def)
    from feed_loop_step[OF _ _ rq p] True
    have e1: "feed_loop cr rv dec s =
           (case feed_loop cr rv dec s2 of (s3, evs', t') \<Rightarrow> (s3, evs2 @ evs', t'))" by simp
    obtain s3 evs3 t3 where f2: "feed_loop cr rv dec s2 = (s3, evs3, t3)" by (metis prod_cases3)
    from "1.IH"[OF True rq refl p[symmetric] refl tt wf2 f2] have "t3 = None \<and> quiescent s3" .
    with e1 f2 "1.prems"(2) show ?thesis by simp
  qed
qed

lemma feed_loop_extend:
  assumes "wf s"
  shows "(case feed_loop cr rv dec (push e s) of (a, b) \<Rightarrow> (flat a, b)) =
         (case feed_loop cr rv dec s of
            (s1, ev1, _) \<Rightarrow>
              (case feed_loop cr rv dec (push e s1) of (s2, ev2, t2) \<Rightarrow> (flat s2, ev1 @ ev2, t2)))"
  using assms
proof (induction cr rv dec s rule: feed_loop.induct)
  case (1 cr rv dec s)
  show ?case
  proof (cases "waiting s \<le> total s \<and> 0 < waiting s")
    case False
    then show ?thesis by (auto simp: feed_loop_stop split: prod.splits)
  next
    case True
    let ?n = "waiting s"
    let ?A = "concat (pending s)"
    let ?c = "take ?n ?A"
    from "1.prems" have inv: "total s = length ?A" by (simp add: wf_def)
    from True inv read_flat[of ?n s] obtain q where
      rq: "read ?n s = Inr (?c, s\<lparr>pending := q, total := total s - ?n\<rparr>)"
      and cq: "concat q = drop ?n ?A" by auto
    obtain s2 evs2 tt where p: "parse cr rv dec ?c (s\<lparr>pending := q, total := total s - ?n\<rparr>) = (s2, evs2, tt)"
      by (metis prod_cases3)
    from parse_no_throw[OF p] have tt: "tt = None" .
    from parse_fields[OF p] have f2: "pending s2 = q" "total s2 = total s - ?n" by simp_all
    from parse_fields[OF p] cq inv have wf2: "wf s2" by (auto simp: wf_def)
    from feed_loop_step[OF _ _ rq p] True
    have e1: "feed_loop cr rv dec s =
           (case feed_loop cr rv dec s2 of (s3, evs', t') \<Rightarrow> (s3, evs2 @ evs', t'))" by simp
    \<comment> \<open>the same step with the extra chunk queued\<close>
    have invp: "total (push e s) = length (concat (pending (push e s)))"
      using inv by (simp add: push_def)
    have wp: "waiting (push e s) = ?n" by (simp add: push_def)
    from True have np: "?n \<le> total (push e s)" by (simp add: push_def)
    from read_flat[OF _ invp, of ?n] np obtain q' where
      rq0: "read ?n (push e s) =
              Inr (take ?n (concat (pending (push e s))),
                   (push e s)\<lparr>pending := q', total := total (push e s) - ?n\<rparr>)"
      and cq0: "concat q' = drop ?n (concat (pending (push e s)))" by auto
    from True inv have tk: "take ?n (concat (pending (push e s))) = ?c"
      and dr: "drop ?n (concat (pending (push e s))) = drop ?n ?A @ e"
      by (simp_all add: push_def)
    from True have st: "(push e s)\<lparr>pending := q', total := total (push e s) - ?n\<rparr> =
        (s\<lparr>pending := q, total := total s - ?n\<rparr>)\<lparr>pending := q', total := total s - ?n + length e\<rparr>"
      by (simp add: push_def)
    from parse_frame[where cr=cr and rv=rv and dec=dec and d="?c"
        and s="s\<lparr>pending := q, total := total s - ?n\<rparr>" and p=q' and n="total s - ?n + length e"] p
    have p': "parse cr rv dec ?c
        ((s\<lparr>pending := q, total := total s - ?n\<rparr>)\<lparr>pending := q', total := total s - ?n + length e\<rparr>) =
               (s2\<lparr>pending := q', total := total s - ?n + length e\<rparr>, evs2, tt)" by simp
    have s2p: "s2\<lparr>pending := q', total := total s - ?n + length e\<rparr> = (push e s2)\<lparr>pending := q'\<rparr>"
      using f2 by (simp add: push_def)
    from rq0 tk st have rq': "read (waiting (push e s)) (push e s) =
        Inr (?c, (s\<lparr>pending := q, total := total s - ?n\<rparr>)\<lparr>pending := q', total := total s - ?n + length e\<rparr>)"
      by (simp add: wp)
    from np True have T': "waiting (push e s) \<le> total (push e s)" "0 < waiting (push e s)"
      by (simp_all add: wp)
    from feed_loop_step[OF T' rq' p'[unfolded s2p]]
    have e2: "feed_loop cr rv dec (push e s) =
           (case feed_loop cr rv dec ((push e s2)\<lparr>pending := q'\<rparr>) of
              (s3, evs', t') \<Rightarrow> (s3, evs2 @ evs', t'))" .
    have "concat q' = concat (pending (push e s2))"
      using cq0 dr cq f2 by (simp add: push_def)
    then have fl: "flat ((push e s2)\<lparr>pending := q'\<rparr>) = flat (push e s2)" by (rule flat_eqI)
    from wf_push[OF wf2] have "total (push e s2) = length (concat (pending (push e s2)))"
      by (simp add: wf_def)
    from feed_loop_flat[OF this fl]
    have A: "(case feed_loop cr rv dec ((push e s2)\<lparr>pending := q'\<rparr>) of (a, b) \<Rightarrow> (flat a, b)) =
             (case feed_loop cr rv dec (push e s2) of (a, b) \<Rightarrow> (flat a, b))" .
    from "1.IH"[OF True rq refl p[symmetric] refl tt wf2]
    have IH: "(case feed_loop cr rv dec (push e s2) of (a, b) \<Rightarrow> (flat a, b)) =
         (case feed_loop cr rv dec s2 of
            (s1, ev1, _) \<Rightarrow>
              (case feed_loop cr rv dec (push e s1) of (s2, ev2, t2) \<Rightarrow> (flat s2, ev1 @ ev2, t2)))" .
    from A IH show ?thesis unfolding e1 e2 by (auto split: prod.splits)
  qed
qed

lemma feed_push: "feed cr rv dec d s = feed_loop cr rv dec (push d s)"
  by (simp add: feed_def push_def)

lemma feed_chunks_flat:
  assumes "quiescent s"
  shows "(case feed_chunks cr rv dec cs s of (a, b) \<Rightarrow> (flat a, b)) =
         (case feed cr rv dec (concat cs) s of (a, b) \<Rightarrow> (flat a, b))
       \<and> snd (snd (feed_chunks cr rv dec cs s)) = None"
  using assms
proof (induction cs arbitrary: s)
  case Nil
  then have "\<not> (waiting (push [] s) \<le> total (push [] s) \<and> 0 < waiting (push [] s))"
    by (simp add: quiescent_def wf_def push_def)
  then have "feed_loop cr rv dec (push [] s) = (push [] s, [], None)" by (rule feed_loop_stop)
  moreover have "flat (push [] s) = flat s" by (simp add: flat_def push_def)
  ultimately show ?case by (simp add: feed_push)
next
  case (Cons c cs)
  let ?rest = "concat cs"
  from Cons.prems have wfs: "wf s" by (simp add: quiescent_wf)
  obtain s1 ev1 t1 where f1: "feed_loop cr rv dec (push c s) = (s1, ev1, t1)" by (metis prod_cases3)
  from feed_loop_inv[OF wf_push[OF wfs] f1] have t1: "t1 = None" and q1: "quiescent s1" by simp_all
  from f1 t1 have fc: "feed cr rv dec c s = (s1, ev1, None)" by (simp add: feed_push)
  from Cons.IH[OF q1]
  have IH: "(case feed_chunks cr rv dec cs s1 of (a, b) \<Rightarrow> (flat a, b)) =
            (case feed_loop cr rv dec (push ?rest s1) of (a, b) \<Rightarrow> (flat a, b))"
    and IHt: "snd (snd (feed_chunks cr rv dec cs s1)) = None"
    by (simp_all add: feed_push)
  \<comment> \<open>one buffer \<open>c @ rest\<close> against the two buffers \<open>c\<close>, \<open>rest\<close>\<close>
  have fl: "flat (push (c @ ?rest) s) = flat (push ?rest (push c s))"
    by (simp add: flat_def push_def)
  from wf_push[OF wf_push[OF wfs]]
  have "total (push ?rest (push c s)) = length (concat (pending (push ?rest (push c s))))"
    by (simp add: wf_def)
  from feed_loop_flat[OF this fl]
  have A: "(case feed_loop cr rv dec (push (c @ ?rest) s) of (a, b) \<Rightarrow> (flat a, b)) =
           (case feed_loop cr rv dec (push ?rest (push c s)) of (a, b) \<Rightarrow> (flat a, b))" .
  from feed_loop_extend[OF wf_push[OF wfs], of cr rv dec ?rest c] f1
  have B: "(case feed_loop cr rv dec (push ?rest (push c s)) of (a, b) \<Rightarrow> (flat a, b)) =
           (case feed_loop cr rv dec (push ?rest s1) of (s2, ev2, t2) \<Rightarrow> (flat s2, ev1 @ ev2, t2))"
    by simp
  have whole: "feed cr rv dec (concat (c # cs)) s = feed_loop cr rv dec (push (c @ ?rest) s)"
    by (simp add: feed_push)
  have parts: "feed_chunks cr rv dec (c # cs) s =
      (case feed_chunks cr rv dec cs s1 of (s2, evs', t) \<Rightarrow> (s2, ev1 @ evs', t))"
    using fc by simp
  from IH IHt A B show ?case unfolding whole parts by (auto split: prod.splits)
qed

text \<open>
  C5: from a quiescent session, feeding the chunks of any partition of a byte string one
  call at a time emits exactly the events (packets and errors, in order) that feeding the
  whole byte string in one call emits; neither throws, and the two final sessions differ
  at most in how the bytes still pending are cut into chunks. This holds for every byte
  string, in particular for an encrypted packet of the peer, and for every partition, in
  particular one byte at a time.
\<close>

theorem C5_chunked_feed:
  assumes "quiescent s"
  shows "\<exists>s1 s2 evs.
           feed_chunks cr rv dec cs s = (s1, evs, None)
         \<and> feed cr rv dec (concat cs) s = (s2, evs, None)
         \<and> flat s1 = flat s2"
proof -
  obtain s1 evs t1 where a: "feed_chunks cr rv dec cs s = (s1, evs, t1)" by (metis prod_cases3)
  obtain s2 evs2 t2 where b: "feed cr rv dec (concat cs) s = (s2, evs2, t2)" by (metis prod_cases3)
  from feed_chunks_flat[OF assms, of cr rv dec cs] a b
  have "flat s1 = flat s2" "evs = evs2" "t1 = t2" "t1 = None" by auto
  with a b show ?thesis by auto
qed

theorem C5_chunked_feed_witness:
  "\<exists>s1 s2 evs.
       feed_chunks toy_crypto std_readVarint latin1_decode [[1, 2], [], [3, 4, 5]] ex_session
         = (s1, evs, None)
     \<and> feed toy_crypto std_readVarint latin1_decode (concat [[1, 2], [], [3, 4, 5]]) ex_session
         = (s2, evs, None)
     \<and> flat s1 = flat s2"
  by (rule C5_chunked_feed) (simp add: quiescent_def wf_def ex_session_def)


end
